theory Spec2Isabelle
  imports Complex_Main "HOL-Library.Sublist" "HOL-Library.Monad_Syntax"
begin

section \<open>Python numbers\<close>

text \<open>
  A Python float is an IEEE 754 double: a rational number of the form \<open>m * 2 ^ e\<close> with
  \<open>\<bar>m\<bar> < 2 ^ 53\<close> and \<open>- 1074 \<le> e\<close>, below \<open>2 ^ 1024\<close> in absolute value, or one of the two
  infinities, or a NaN. The sign of a zero is not kept: no function modelled here reads it.
\<close>

datatype pyfloat = Finite rat | PosInf | NegInf | NaN

text \<open>Rounding to the nearest integer, a tie going to the even neighbour.\<close>

definition round_half_even :: "rat \<Rightarrow> int" where
  "round_half_even x =
     (let f = \<lfloor>x\<rfloor>; d = x - of_int f
      in if d < 1 / 2 then f
         else if 1 / 2 < d then f + 1
         else if even f then f else f + 1)"

text \<open>The exponent of a positive rational: \<open>2 ^ ilog2 x \<le> x < 2 ^ (ilog2 x + 1)\<close>.\<close>

function ilog2 :: "rat \<Rightarrow> int" where
  "ilog2 x = (if x \<le> 0 then 0
              else if 2 \<le> x then ilog2 (x / 2) + 1
              else if x < 1 then ilog2 (2 * x) - 1
              else 0)"
  by pat_completeness auto
termination
proof (relation "measure (\<lambda>x. if 1 \<le> x then nat \<lfloor>x\<rfloor> else nat \<lceil>1 / x\<rceil>)", goal_cases)
  case 1
  then show ?case by simp
next
  case (2 x)
  then have "\<lfloor>x / 2\<rfloor> < \<lfloor>x\<rfloor>" by linarith
  with 2 show ?case by simp
next
  case (3 x)
  then have x: "0 < x" "x < 1" by simp_all
  show ?case
  proof (cases "1 \<le> 2 * x")
    case True
    then have "\<lfloor>2 * x\<rfloor> = 1" using x by linarith
    moreover have "1 < 1 / x" using x by simp
    then have "2 \<le> \<lceil>1 / x\<rceil>" by linarith
    ultimately show ?thesis using True x by simp
  next
    case False
    then have "2 < 1 / x" using x by (simp add: field_simps)
    moreover have "1 / (2 * x) = (1 / x) / 2" by simp
    ultimately have "\<lceil>1 / (2 * x)\<rceil> < \<lceil>1 / x\<rceil>" by linarith
    moreover have "0 < \<lceil>1 / x\<rceil>" using x by (simp add: field_simps)
    ultimately show ?thesis using False x by simp
  qed
qed

declare ilog2.simps [simp del]

definition pow2 :: "int \<Rightarrow> rat" where
  "pow2 e = (if 0 \<le> e then 2 ^ nat e else 1 / 2 ^ nat (- e))"

text \<open>
  The double nearest to a rational (ties to the even significand): 53 significant bits,
  a least exponent of \<open>- 1074\<close> (the subnormal numbers), and an infinity from \<open>2 ^ 1024\<close>
  on. Every arithmetic operation on floats is the exact operation followed by this
  rounding.
\<close>

definition fl :: "rat \<Rightarrow> pyfloat" where
  "fl x =
     (if x = 0 then Finite 0
      else
        (let e = max (ilog2 \<bar>x\<bar> - 52) (- 1074);
             r = of_int (round_half_even (x / pow2 e)) * pow2 e
         in if 2 ^ 1024 \<le> \<bar>r\<bar> then (if 0 < x then PosInf else NegInf) else Finite r))"

text \<open>\<open>float(n)\<close> for an integer that a double can hold, as in \<open>n * x\<close> with a float \<open>x\<close>.\<close>

definition float_of_int :: "int \<Rightarrow> pyfloat" where
  "float_of_int n = fl (of_int n)"

fun fneg :: "pyfloat \<Rightarrow> pyfloat" where
  "fneg (Finite x) = Finite (- x)"
| "fneg PosInf = NegInf"
| "fneg NegInf = PosInf"
| "fneg NaN = NaN"

fun fadd :: "pyfloat \<Rightarrow> pyfloat \<Rightarrow> pyfloat" where
  "fadd (Finite x) (Finite y) = fl (x + y)"
| "fadd NaN b = NaN"
| "fadd a NaN = NaN"
| "fadd PosInf NegInf = NaN"
| "fadd NegInf PosInf = NaN"
| "fadd PosInf b = PosInf"
| "fadd NegInf b = NegInf"
| "fadd a PosInf = PosInf"
| "fadd a NegInf = NegInf"

definition fsub :: "pyfloat \<Rightarrow> pyfloat \<Rightarrow> pyfloat" where
  "fsub a b = fadd a (fneg b)"

text \<open>\<open><\<close> and \<open><=\<close> on floats: every comparison with a NaN is false.\<close>

fun flt :: "pyfloat \<Rightarrow> pyfloat \<Rightarrow> bool" where
  "flt (Finite x) (Finite y) = (x < y)"
| "flt NaN b = False"
| "flt a NaN = False"
| "flt a NegInf = False"
| "flt PosInf b = False"
| "flt NegInf b = True"
| "flt a PosInf = True"

fun fle :: "pyfloat \<Rightarrow> pyfloat \<Rightarrow> bool" where
  "fle (Finite x) (Finite y) = (x \<le> y)"
| "fle NaN b = False"
| "fle a NaN = False"
| "fle NegInf b = True"
| "fle a PosInf = True"
| "fle a NegInf = False"
| "fle PosInf b = False"

fun fmul :: "pyfloat \<Rightarrow> pyfloat \<Rightarrow> pyfloat" where
  "fmul (Finite x) (Finite y) = fl (x * y)"
| "fmul NaN b = NaN"
| "fmul a NaN = NaN"
| "fmul a b =
     (if a = Finite 0 \<or> b = Finite 0 then NaN
      else if flt (Finite 0) a = flt (Finite 0) b then PosInf else NegInf)"

text \<open>
  \<open>max(a, b)\<close> and \<open>min(a, b)\<close>: the first argument, unless the second is greater
  (smaller).
\<close>

definition fmax :: "pyfloat \<Rightarrow> pyfloat \<Rightarrow> pyfloat" where
  "fmax a b = (if flt a b then b else a)"

definition fmin :: "pyfloat \<Rightarrow> pyfloat \<Rightarrow> pyfloat" where
  "fmin a b = (if flt b a then b else a)"

text \<open>
  The exceptions of the modelled code. The two HTTP errors are the \<open>HTTPException\<close>s of
  the routes and the 422 of the request validation.
\<close>

datatype py_exception =
  HTTP_404_NOT_FOUND | HTTP_422_UNPROCESSABLE_ENTITY | MultipleResultsFound | DBAPIError
| OverflowError | ValueError | ZeroDivisionError | IndexError | AttributeError
| JSONDecodeError | RecursionError | APIError string

type_synonym http_error = py_exception

text \<open>
  One-argument \<open>round\<close> on a float: the nearest integer, a tie to the even one;
  \<open>OverflowError\<close> on an infinity and \<open>ValueError\<close> on a NaN.
\<close>

definition py_round :: "pyfloat \<Rightarrow> py_exception + int" where
  "py_round a =
     (case a of
        Finite x \<Rightarrow> Inr (round_half_even x)
      | NaN \<Rightarrow> Inl ValueError
      | _ \<Rightarrow> Inl OverflowError)"

text \<open>
  \<open>a / b\<close> on integers: the double nearest to the quotient, \<open>ZeroDivisionError\<close> for a
  zero divisor and \<open>OverflowError\<close> for a quotient too large for a double.
\<close>

definition int_truediv :: "int \<Rightarrow> int \<Rightarrow> py_exception + pyfloat" where
  "int_truediv a b =
     (if b = 0 then Inl ZeroDivisionError
      else
        (case fl (of_int a / of_int b) of
           Finite x \<Rightarrow> Inr (Finite x)
         | _ \<Rightarrow> Inl OverflowError))"

text \<open>
  A \<open>datetime\<close> is a real number of days since 0001-01-01 00:00, so that
  \<open>now + timedelta(days=d)\<close> is \<open>now + d\<close> and \<open>.date()\<close> is the floor.
\<close>

type_synonym datetime = real

text \<open>
  \<open>timedelta(days=n)\<close> for an integer \<open>n\<close>, and \<open>datetime + timedelta\<close>. A \<open>datetime\<close> is
  between 0001-01-01 and the end of 9999-12-31, that is from day 0 up to, and not
  including, day 3652059; a sum outside raises \<open>OverflowError\<close>.
\<close>

definition timedelta :: "int \<Rightarrow> py_exception + int" where
  "timedelta days = (if 999999999 < \<bar>days\<bar> then Inl OverflowError else Inr days)"

definition datetime_add :: "datetime \<Rightarrow> int \<Rightarrow> py_exception + datetime" where
  "datetime_add t days =
     (if t + of_int days < 0 \<or> 3652059 \<le> t + of_int days then Inl OverflowError
      else Inr (t + of_int days))"

section \<open>Data model (db/models.py)\<close>

text \<open>
  Python integers are \<open>int\<close>, the \<open>Float\<close> columns are floats, and identifiers (UUID
  strings) are \<open>string\<close>.
\<close>

datatype CEFRLevel = A1 | A2 | B1 | B2

datatype WordStatus = NEW | LEARNING | KNOWN | MASTERED

datatype GrammarStatus = LOCKED | AVAILABLE | G_LEARNING | LEARNED

datatype WordSource = SEEDED | STORY | MANUAL | REVIEW


record UserWord =
  uw_id :: string
  user_id :: string
  word_id :: string
  status :: WordStatus
  familiarity :: pyfloat
  times_seen :: int
  times_reviewed :: int
  times_correct :: int
  last_seen_at :: "datetime option"
  next_review_at :: "datetime option"
  srs_interval_days :: pyfloat
  srs_ease_factor :: pyfloat
  source :: WordSource

section \<open>Review scheduling (routes/reviews.py)\<close>

text \<open>
  \<open>submit_review\<close> is modelled block by block, in the order of the source. The first
  block is the one under the comment \<open># SM-2 algorithm\<close> (lines 161 to 183): the ease
  factor is assigned first, and the interval is computed from the assigned value. The
  interval is an integer from here to the commit, which stores it in a float column; the
  block returns it beside the row. \<open>(5 - quality) * x\<close> converts the integer to a float.
\<close>

definition sm2_update :: "UserWord \<Rightarrow> int \<Rightarrow> py_exception + UserWord \<times> int" where
  "sm2_update user_word quality =
     (if quality < 3 then Inr (user_word, 1)
      else
        (let uw = user_word\<lparr>srs_ease_factor :=
                    fmax (fl (13 / 10))
                      (fadd (srs_ease_factor user_word)
                         (fsub (fl (1 / 10))
                            (fmul (float_of_int (5 - quality))
                               (fadd (fl (8 / 100))
                                  (fmul (float_of_int (5 - quality)) (fl (2 / 100)))))))\<rparr>
         in if srs_interval_days uw = Finite 0 then Inr (uw, 1)
            else if srs_interval_days uw = Finite 1 then Inr (uw, 6)
            else
              (case py_round (fmul (srs_interval_days uw) (srs_ease_factor uw)) of
                 Inl e \<Rightarrow> Inl e
               | Inr n \<Rightarrow> Inr (uw, n))))"

text \<open>
  The block \<open># Update review tracking\<close> (lines 185 to 193); \<open>now\<close> stands for
  \<open>datetime.utcnow()\<close>, and its two calls are taken to give the same instant. The sum
  of line 188 raises when the interval is no \<open>timedelta\<close> or the date is out of range.
\<close>

definition update_review_tracking ::
  "datetime \<Rightarrow> UserWord \<times> int \<Rightarrow> int \<Rightarrow> py_exception + UserWord \<times> int" where
  "update_review_tracking now uwn quality =
     (case uwn of (user_word, interval) \<Rightarrow>
        (case timedelta interval of
           Inl e \<Rightarrow> Inl e
         | Inr days \<Rightarrow>
             (case datetime_add now days of
                Inl e \<Rightarrow> Inl e
              | Inr next_review \<Rightarrow>
                  (let uw = user_word\<lparr>times_reviewed := times_reviewed user_word + 1,
                                       last_seen_at := Some now,
                                       next_review_at := Some next_review\<rparr>
                   in Inr (if 3 \<le> quality then uw\<lparr>times_correct := times_correct uw + 1\<rparr>
                           else uw,
                           interval)))))"

text \<open>The block \<open># Update status based on familiarity\<close> (lines 195 to 204).\<close>

definition update_status :: "UserWord \<times> int \<Rightarrow> py_exception + UserWord \<times> int" where
  "update_status uwn =
     (case uwn of (user_word, interval) \<Rightarrow>
        (case int_truediv (times_correct user_word) (max 1 (times_reviewed user_word)) of
           Inl e \<Rightarrow> Inl e
         | Inr ratio \<Rightarrow>
             (let uw = user_word\<lparr>familiarity := fmin (Finite 1) ratio\<rparr>
              in Inr (if fle (fl (9 / 10)) (familiarity uw) \<and> 21 \<le> interval
                        then uw\<lparr>status := MASTERED\<rparr>
                      else if fle (fl (7 / 10)) (familiarity uw) then uw\<lparr>status := KNOWN\<rparr>
                      else uw\<lparr>status := LEARNING\<rparr>,
                      interval))))"

text \<open>\<open>db.commit()\<close>: the row as it is stored, the interval in its float column.\<close>

definition commit :: "UserWord \<times> int \<Rightarrow> UserWord" where
  "commit uwn = (case uwn of (user_word, interval) \<Rightarrow>
                   user_word\<lparr>srs_interval_days := float_of_int interval\<rparr>)"

text \<open>
  The route. The request model admits a quality from 0 to 5 only
  (\<open>Field(..., ge=0, le=5)\<close> in schemas.py), any other is answered 422 before the
  route runs. The second argument is the result of \<open>scalar_one_or_none()\<close> on the lookup
  by row id and user, and a missing row is the 404 of lines 153 to 159. An exception
  leaves the route before the commit.
\<close>

definition submit_review :: "datetime \<Rightarrow> UserWord option \<Rightarrow> int \<Rightarrow> http_error + UserWord" where
  "submit_review now row quality =
     (if quality < 0 \<or> 5 < quality then Inl HTTP_422_UNPROCESSABLE_ENTITY
      else
        (case row of
           None \<Rightarrow> Inl HTTP_404_NOT_FOUND
         | Some user_word \<Rightarrow>
             (case sm2_update user_word quality of
                Inl e \<Rightarrow> Inl e
              | Inr uw1 \<Rightarrow>
                  (case update_review_tracking now uw1 quality of
                     Inl e \<Rightarrow> Inl e
                   | Inr uw2 \<Rightarrow>
                       (case update_status uw2 of
                          Inl e \<Rightarrow> Inl e
                        | Inr uw3 \<Rightarrow> Inr (commit uw3))))))"

text \<open>
  A history of reviews of one row: each call sees the row the previous one stored, and a
  call that raises stores nothing.
\<close>

fun submit_reviews :: "UserWord \<Rightarrow> (datetime \<times> int) list \<Rightarrow> UserWord" where
  "submit_reviews uw [] = uw"
| "submit_reviews uw ((now, quality) # rest) =
     (case submit_review now (Some uw) quality of
        Inl e \<Rightarrow> submit_reviews uw rest
      | Inr uw' \<Rightarrow> submit_reviews uw' rest)"

text \<open>
  The pieces of the first block, and the conditions of the later ones, named for the
  proofs: the new ease factor, the new interval, the dates that line 188 accepts, the
  status of lines 198 to 204, and the values of an \<open>Integer\<close> column.
\<close>

definition new_ease :: "pyfloat \<Rightarrow> int \<Rightarrow> pyfloat" where
  "new_ease ease q =
     (if q < 3 then ease
      else fmax (fl (13 / 10))
             (fadd ease
                (fsub (fl (1 / 10))
                   (fmul (float_of_int (5 - q))
                      (fadd (fl (8 / 100)) (fmul (float_of_int (5 - q)) (fl (2 / 100))))))))"

definition new_interval :: "pyfloat \<Rightarrow> pyfloat \<Rightarrow> int \<Rightarrow> py_exception + int" where
  "new_interval interval ease q =
     (if q < 3 then Inr 1
      else if interval = Finite 0 then Inr 1
      else if interval = Finite 1 then Inr 6
      else py_round (fmul interval (new_ease ease q)))"

definition in_range :: "datetime \<Rightarrow> int \<Rightarrow> bool" where
  "in_range now n \<longleftrightarrow> \<bar>n\<bar> \<le> 999999999 \<and> 0 \<le> now + of_int n \<and> now + of_int n < 3652059"

definition status_of :: "pyfloat \<Rightarrow> int \<Rightarrow> WordStatus" where
  "status_of f n = (if fle (fl (9 / 10)) f \<and> 21 \<le> n then MASTERED
                    else if fle (fl (7 / 10)) f then KNOWN else LEARNING)"

definition int32 :: "int \<Rightarrow> bool" where
  "int32 n \<longleftrightarrow> - 2147483648 \<le> n \<and> n \<le> 2147483647"

section \<open>Level tables\<close>

text \<open>\<open>_determine_level\<close> of routes/users.py (dashboard statistics).\<close>

definition determine_level :: "int \<Rightarrow> CEFRLevel" where
  "determine_level words_known =
     (if words_known < 100 then A1
      else if words_known < 300 then A2
      else if words_known < 600 then B1
      else B2)"

text \<open>
  The table of \<open>_determine_user_level\<close> (services/story_generator.py), applied to the
  count the query returned; \<open>get_ready_story_info\<close> (routes/stories.py) repeats it.
\<close>

definition determine_user_level :: "int \<Rightarrow> CEFRLevel" where
  "determine_user_level words_known =
     (if words_known < 50 then A1
      else if words_known < 150 then A2
      else if words_known < 400 then B1
      else B2)"

definition ready_story_level :: "int \<Rightarrow> CEFRLevel" where
  "ready_story_level words_known =
     (if words_known < 50 then A1
      else if words_known < 150 then A2
      else if words_known < 400 then B1
      else B2)"

section \<open>Streak (routes/users.py)\<close>

record LearningSession =
  ls_user_id :: string
  started_at :: datetime
  ended_at :: "datetime option"

text \<open>\<open>datetime.date()\<close>: the calendar day, as a day number.\<close>

definition date_of :: "datetime \<Rightarrow> int" where
  "date_of t = \<lfloor>t\<rfloor>"

text \<open>
  The query of \<open>_calculate_streak\<close>: the start times of the user's sessions that have an
  end time, latest first.
\<close>

definition streak_query :: "LearningSession list \<Rightarrow> string \<Rightarrow> datetime list" where
  "streak_query tbl uid =
     rev (sort (map started_at
       (filter (\<lambda>s. ls_user_id s = uid \<and> ended_at s \<noteq> None) tbl)))"

text \<open>The \<open>for\<close> loop over the rows; leaving the recursion is the \<open>break\<close>.\<close>

fun streak_loop :: "int \<Rightarrow> int \<Rightarrow> datetime list \<Rightarrow> int" where
  "streak_loop streak current_date [] = streak"
| "streak_loop streak current_date (session # rest) =
     (let session_date = date_of session
      in if session_date = current_date then streak_loop (max streak 1) current_date rest
         else if session_date = current_date - 1
           then streak_loop (streak + 1) session_date rest
         else streak)"

definition calculate_streak :: "LearningSession list \<Rightarrow> string \<Rightarrow> datetime \<Rightarrow> int" where
  "calculate_streak tbl uid now =
     (let sessions = streak_query tbl uid
      in if sessions = [] then 0
         else streak_loop 0 (date_of now) sessions)"

text \<open>
  The calendar days on which the user's sessions that have an end time started, and the
  calendar days on which they ended.
\<close>

definition end_dates :: "LearningSession list \<Rightarrow> string \<Rightarrow> int set" where
  "end_dates tbl uid =
     set (map date_of (List.map_filter ended_at (filter (\<lambda>s. ls_user_id s = uid) tbl)))"

definition start_dates :: "LearningSession list \<Rightarrow> string \<Rightarrow> int set" where
  "start_dates tbl uid =
     set (map (\<lambda>s. date_of (started_at s))
       (filter (\<lambda>s. ls_user_id s = uid \<and> ended_at s \<noteq> None) tbl))"

text \<open>The loop again, on the calendar days of the rows; used in the proofs only.\<close>

fun streak_days :: "int \<Rightarrow> int \<Rightarrow> int list \<Rightarrow> int" where
  "streak_days streak current_date [] = streak"
| "streak_days streak current_date (d # rest) =
     (if d = current_date then streak_days (max streak 1) current_date rest
      else if d = current_date - 1 then streak_days (streak + 1) d rest
      else streak)"

section \<open>Answer comparison (services/exercise_evaluator.py)\<close>

text \<open>
  Text is a list of characters with code points below 256. On these, \<open>str.lower()\<close>
  moves the capital letters (A to Z, and the accented capitals 192 to 222 without 215)
  up by 32, and \<open>str.strip()\<close> removes the characters for which \<open>str.isspace()\<close>
  holds.
\<close>

definition lower_char :: "char \<Rightarrow> char" where
  "lower_char c =
     (let n = (of_char c :: nat)
      in if (65 \<le> n \<and> n \<le> 90) \<or> (192 \<le> n \<and> n \<le> 222 \<and> n \<noteq> 215)
         then char_of (n + 32) else c)"

definition lower :: "string \<Rightarrow> string" where
  "lower text = map lower_char text"

definition isspace :: "char \<Rightarrow> bool" where
  "isspace c =
     (let n = (of_char c :: nat)
      in (9 \<le> n \<and> n \<le> 13) \<or> (28 \<le> n \<and> n \<le> 32) \<or> n = 133 \<or> n = 160)"

definition strip :: "string \<Rightarrow> string" where
  "strip text = rev (dropWhile isspace (rev (dropWhile isspace text)))"

text \<open>
  \<open>str.replace(old, new)\<close> for a non-empty \<open>old\<close> (every call below has one): the
  occurrences are found from the left and do not overlap.
\<close>

function replace :: "'a list \<Rightarrow> 'a list \<Rightarrow> 'a list \<Rightarrow> 'a list" where
  "replace old new [] = []"
| "replace old new (c # cs) =
     (if old \<noteq> [] \<and> prefix old (c # cs)
      then new @ replace old new (drop (length old) (c # cs))
      else c # replace old new cs)"
  by pat_completeness auto
termination
  by (relation "measure (\<lambda>(old, new, text). length text)") auto

definition normalize_text :: "string \<Rightarrow> string" where
  "normalize_text text = replace ''  '' '' '' (strip (lower text))"

text \<open>The dictionary of \<open>_simplify_romanization\<close>, in its insertion order.\<close>

definition replacements :: "(string \<times> string) list" where
  "replacements =
     [(''aa'', ''a''), (''ee'', ''i''), (''oo'', ''u''), (''sh'', ''s''), (''th'', ''t''),
      (''dh'', ''d''), (''bh'', ''b''), (''ph'', ''f''), (''kh'', ''k''), (''gh'', ''g''),
      (''chh'', ''ch'')]"

definition simplify_romanization :: "string \<Rightarrow> string" where
  "simplify_romanization text =
     foldl (\<lambda>result (old, new). replace old new result) text replacements"

text \<open>
  List indexing raises \<open>IndexError\<close> out of range; \<open>None\<close> stands for it. \<open>row[-1]\<close>
  is the last element.
\<close>

definition index :: "'a list \<Rightarrow> nat \<Rightarrow> 'a option" where
  "index xs i = (if i < length xs then Some (xs ! i) else None)"

definition last_item :: "'a list \<Rightarrow> 'a option" where
  "last_item xs = (if xs = [] then None else Some (last xs))"

text \<open>
  The inner loop of \<open>_levenshtein_distance\<close> over \<open>enumerate(s2)\<close>: \<open>j\<close> is the
  position, and the row under construction is the last argument.
\<close>

fun inner_loop :: "'a \<Rightarrow> nat list \<Rightarrow> 'a list \<Rightarrow> nat \<Rightarrow> nat list \<Rightarrow> nat list option" where
  "inner_loop c1 previous_row [] j current_row = Some current_row"
| "inner_loop c1 previous_row (c2 # rest) j current_row =
     do {
       a \<leftarrow> index previous_row (j + 1);
       b \<leftarrow> index current_row j;
       c \<leftarrow> index previous_row j;
       let insertions = a + 1;
       let deletions = b + 1;
       let substitutions = c + (if c1 \<noteq> c2 then 1 else 0);
       inner_loop c1 previous_row rest (j + 1)
         (current_row @ [min insertions (min deletions substitutions)])
     }"

text \<open>The outer loop over \<open>enumerate(s1)\<close>.\<close>

fun outer_loop :: "'a list \<Rightarrow> 'a list \<Rightarrow> nat \<Rightarrow> nat list \<Rightarrow> nat list option" where
  "outer_loop s2 [] i previous_row = Some previous_row"
| "outer_loop s2 (c1 # rest) i previous_row =
     do {
       current_row \<leftarrow> inner_loop c1 previous_row s2 0 [i + 1];
       outer_loop s2 rest (i + 1) current_row
     }"

function levenshtein_distance :: "'a list \<Rightarrow> 'a list \<Rightarrow> nat option" where
  "levenshtein_distance s1 s2 =
     (if length s1 < length s2 then levenshtein_distance s2 s1
      else if length s2 = 0 then Some (length s1)
      else do {
        previous_row \<leftarrow> outer_loop s2 s1 0 [0..<length s2 + 1];
        last_item previous_row
      })"
  by pat_completeness auto
termination
  by (relation "measure (\<lambda>(s1, s2). if length s1 < length s2 then 1 else 0)") auto

declare levenshtein_distance.simps [simp del]

definition fuzzy_match :: "string \<Rightarrow> string \<Rightarrow> bool option" where
  "fuzzy_match answer expected =
     (let answer_normalized = normalize_text answer;
          expected_normalized = normalize_text expected
      in if answer_normalized = expected_normalized then Some True
         else
           (let answer_simple = simplify_romanization answer_normalized;
                expected_simple = simplify_romanization expected_normalized
            in if answer_simple = expected_simple then Some True
               else if length expected_normalized \<le> 6
                 then do {
                   d \<leftarrow> levenshtein_distance answer_normalized expected_normalized;
                   Some (d \<le> 1)
                 }
               else do {
                 d \<leftarrow> levenshtein_distance answer_normalized expected_normalized;
                 Some (d \<le> 2)
               }))"

text \<open>
  The reference for the refinement: the Levenshtein distance by its recursion on the
  heads of the two strings (delete, insert, or substitute the first character).
\<close>

fun edit_distance :: "'a list \<Rightarrow> 'a list \<Rightarrow> nat" where
  "edit_distance [] ys = length ys"
| "edit_distance xs [] = length xs"
| "edit_distance (x # xs) (y # ys) =
     min (edit_distance xs (y # ys) + 1)
       (min (edit_distance (x # xs) ys + 1)
            (edit_distance xs ys + (if x = y then 0 else 1)))"

section \<open>Answers of the generative-text service\<close>

text \<open>
  Values that \<open>json.loads\<close> returns. A dictionary is the list of its items, each key
  once.
\<close>

datatype json =
  JNull | JBool bool | JInt int | JFloat real | JStr string
| JList "json list" | JDict "(string \<times> json) list"

text \<open>\<open>sub in text\<close> on strings.\<close>

fun contains :: "'a list \<Rightarrow> 'a list \<Rightarrow> bool" where
  "contains sub [] = (sub = [])"
| "contains sub (c # cs) = (prefix sub (c # cs) \<or> contains sub cs)"

text \<open>
  \<open>str.split(sep)\<close> for a non-empty \<open>sep\<close>: the separators are found from the left
  and do not overlap; a character that starts no separator belongs to the part that
  the rest of the text begins with.
\<close>

function split :: "'a list \<Rightarrow> 'a list \<Rightarrow> 'a list list" where
  "split sep [] = [[]]"
| "split sep (c # cs) =
     (if sep \<noteq> [] \<and> prefix sep (c # cs)
      then [] # split sep (drop (length sep) (c # cs))
      else (case split sep cs of
              [] \<Rightarrow> [[c]]
            | part # parts \<Rightarrow> (c # part) # parts))"
  by pat_completeness auto
termination
  by (relation "measure (\<lambda>(sep, text). length text)") auto











section \<open>Story completion (routes/stories.py)\<close>

record Story =
  st_id :: string
  st_user_id :: string
  target_new_word_ids :: "string list"
  rating :: "int option"
  completed_at :: "datetime option"

text \<open>
  \<open>scalar_one_or_none()\<close> on the rows a query returned: no row is \<open>None\<close>, one row is
  that row, and more than one raises \<open>MultipleResultsFound\<close>.
\<close>

definition scalar_one_or_none :: "'a list \<Rightarrow> http_error + 'a option" where
  "scalar_one_or_none rows =
     (case rows of
        [] \<Rightarrow> Inr None
      | [row] \<Rightarrow> Inr (Some row)
      | _ \<Rightarrow> Inl MultipleResultsFound)"

text \<open>
  The row that \<open>UserWord(user_id=..., word_id=..., status=LEARNING, times_seen=1,
  last_seen_at=now)\<close> becomes when it is flushed: the other columns take the defaults of
  db/models.py. \<open>uuid4\<close> stands for the generator of the row's identifier.
\<close>

definition new_user_word ::
  "(string \<Rightarrow> string \<Rightarrow> string) \<Rightarrow> datetime \<Rightarrow> string \<Rightarrow> string \<Rightarrow> UserWord" where
  "new_user_word uuid4 now uid wid =
     \<lparr>uw_id = uuid4 uid wid, user_id = uid, word_id = wid, status = LEARNING,
      familiarity = Finite 0, times_seen = 1, times_reviewed = 0, times_correct = 0,
      last_seen_at = Some now, next_review_at = None,
      srs_interval_days = Finite 1, srs_ease_factor = Finite (5 / 2), source = SEEDED\<rparr>"

text \<open>The three assignments on a row that exists (lines 183 to 186).\<close>

definition mark_seen :: "datetime \<Rightarrow> UserWord \<Rightarrow> UserWord" where
  "mark_seen now user_word =
     (let uw = user_word\<lparr>times_seen := times_seen user_word + 1, last_seen_at := Some now\<rparr>
      in if status uw = NEW then uw\<lparr>status := LEARNING\<rparr> else uw)"

text \<open>
  The loop over \<open>story.target_new_word_ids\<close> on the table of progress rows. A row the
  loop has added is seen by the queries that follow (the session flushes before a query).
\<close>

fun mark_new_words_seen ::
  "(string \<Rightarrow> string \<Rightarrow> string) \<Rightarrow> datetime \<Rightarrow> string \<Rightarrow> string list \<Rightarrow> UserWord list
   \<Rightarrow> http_error + UserWord list" where
  "mark_new_words_seen uuid4 now uid [] user_words = Inr user_words"
| "mark_new_words_seen uuid4 now uid (wid # rest) user_words =
     (case scalar_one_or_none
             (filter (\<lambda>uw. user_id uw = uid \<and> word_id uw = wid) user_words) of
        Inl e \<Rightarrow> Inl e
      | Inr (Some user_word) \<Rightarrow>
          mark_new_words_seen uuid4 now uid rest
            (map (\<lambda>uw. if user_id uw = uid \<and> word_id uw = wid then mark_seen now uw else uw)
               user_words)
      | Inr None \<Rightarrow>
          mark_new_words_seen uuid4 now uid rest
            (user_words @ [new_user_word uuid4 now uid wid]))"

text \<open>
  \<open>complete_story\<close>: the first argument after the clock is the result of the lookup of
  the story by id and user; \<open>if request.rating:\<close> holds for a rating that is neither
  \<open>None\<close> nor 0.
\<close>

definition complete_story ::
  "(string \<Rightarrow> string \<Rightarrow> string) \<Rightarrow> datetime \<Rightarrow> Story option \<Rightarrow> int option \<Rightarrow> string
   \<Rightarrow> UserWord list \<Rightarrow> http_error + (Story \<times> UserWord list)" where
  "complete_story uuid4 now story_row request_rating uid user_words =
     (case story_row of
        None \<Rightarrow> Inl HTTP_404_NOT_FOUND
      | Some story \<Rightarrow>
          (let story1 = story\<lparr>completed_at := Some now\<rparr>;
               story2 = (if request_rating \<noteq> None \<and> request_rating \<noteq> Some 0
                         then story1\<lparr>rating := request_rating\<rparr> else story1)
           in case mark_new_words_seen uuid4 now uid (target_new_word_ids story2) user_words of
                Inl e \<Rightarrow> Inl e
              | Inr user_words' \<Rightarrow> Inr (story2, user_words')))"

text \<open>The constraint \<open>uq_user_word\<close>: one row for a user and a word.\<close>

definition uq_user_word :: "UserWord list \<Rightarrow> bool" where
  "uq_user_word user_words = distinct (map (\<lambda>uw. (user_id uw, word_id uw)) user_words)"

text \<open>
  What completing a story may do to a row: nothing to its keys and its review fields,
  and to its status only the step from NEW to LEARNING.
\<close>

definition row_kept :: "UserWord \<Rightarrow> UserWord \<Rightarrow> bool" where
  "row_kept old new =
     (uw_id new = uw_id old \<and> user_id new = user_id old \<and> word_id new = word_id old
      \<and> (status new = status old \<or> (status old = NEW \<and> status new = LEARNING))
      \<and> times_seen old \<le> times_seen new
      \<and> srs_interval_days new = srs_interval_days old
      \<and> srs_ease_factor new = srs_ease_factor old
      \<and> next_review_at new = next_review_at old
      \<and> times_reviewed new = times_reviewed old
      \<and> times_correct new = times_correct old
      \<and> familiarity new = familiarity old
      \<and> source new = source old)"

text \<open>The user has a progress row for the word.\<close>

definition has_row :: "UserWord list \<Rightarrow> string \<Rightarrow> string \<Rightarrow> bool" where
  "has_row user_words uid wid = (\<exists>uw \<in> set user_words. user_id uw = uid \<and> word_id uw = wid)"

text \<open>The table after the branch of the loop for a row that exists; used in the proofs.\<close>

definition step_found :: "datetime \<Rightarrow> string \<Rightarrow> string \<Rightarrow> UserWord list \<Rightarrow> UserWord list" where
  "step_found now uid wid tbl =
     map (\<lambda>uw. if user_id uw = uid \<and> word_id uw = wid then mark_seen now uw else uw) tbl"

text \<open>The order NEW, LEARNING, KNOWN, MASTERED of the acquisition statuses.\<close>

fun status_rank :: "WordStatus \<Rightarrow> nat" where
  "status_rank NEW = 0"
| "status_rank LEARNING = 1"
| "status_rank KNOWN = 2"
| "status_rank MASTERED = 3"

section \<open>Content selection (services/story_generator.py)\<close>









section \<open>Sample data\<close>

definition row0 :: UserWord where
  "row0 = \<lparr>uw_id = ''r1'', user_id = ''u1'', word_id = ''w1'', status = LEARNING,
            familiarity = Finite 0, times_seen = 1, times_reviewed = 3, times_correct = 2,
            last_seen_at = None, next_review_at = None,
            srs_interval_days = Finite 5, srs_ease_factor = fl (12 / 5), source = SEEDED\<rparr>"

definition row_slow :: UserWord where
  "row_slow = row0\<lparr>srs_interval_days := Finite 10, srs_ease_factor := fl (27 / 20)\<rparr>"

definition row_late :: UserWord where
  "row_late = row0\<lparr>srs_interval_days := Finite 2038878, srs_ease_factor := fl (37 / 10)\<rparr>"

definition row_ripe :: UserWord where
  "row_ripe = row0\<lparr>srs_interval_days := Finite 20, srs_ease_factor := fl (27 / 20),
                    times_reviewed := 9, times_correct := 9\<rparr>"

definition sessions3 :: "LearningSession list" where
  "sessions3 =
     [\<lparr>ls_user_id = ''u1'', started_at = 8.25, ended_at = Some 8.5\<rparr>,
      \<lparr>ls_user_id = ''u1'', started_at = 10.25, ended_at = Some 10.5\<rparr>,
      \<lparr>ls_user_id = ''u2'', started_at = 7.5, ended_at = Some 7.75\<rparr>,
      \<lparr>ls_user_id = ''u1'', started_at = 9.5, ended_at = Some 9.75\<rparr>,
      \<lparr>ls_user_id = ''u1'', started_at = 10.5, ended_at = Some 10.75\<rparr>,
      \<lparr>ls_user_id = ''u1'', started_at = 7.25, ended_at = None\<rparr>,
      \<lparr>ls_user_id = ''u1'', started_at = 8.75, ended_at = Some 9.25\<rparr>]"

definition sessions3_once :: "LearningSession list" where
  "sessions3_once =
     [\<lparr>ls_user_id = ''u1'', started_at = 10.25, ended_at = Some 10.5\<rparr>,
      \<lparr>ls_user_id = ''u1'', started_at = 9.5, ended_at = Some 9.75\<rparr>,
      \<lparr>ls_user_id = ''u1'', started_at = 8.25, ended_at = Some 8.5\<rparr>]"

definition sessions_gap :: "LearningSession list" where
  "sessions_gap =
     [\<lparr>ls_user_id = ''u1'', started_at = 8.25, ended_at = Some 8.5\<rparr>,
      \<lparr>ls_user_id = ''u1'', started_at = 10.25, ended_at = Some 10.5\<rparr>,
      \<lparr>ls_user_id = ''u1'', started_at = 9.5, ended_at = None\<rparr>]"

definition sessions_midnight :: "LearningSession list" where
  "sessions_midnight =
     [\<lparr>ls_user_id = ''u1'', started_at = 8.25, ended_at = Some 8.5\<rparr>,
      \<lparr>ls_user_id = ''u1'', started_at = 9.75, ended_at = Some 10.25\<rparr>]"

definition sessions_late :: "LearningSession list" where
  "sessions_late =
     [\<lparr>ls_user_id = ''u1'', started_at = 8.25, ended_at = Some 8.5\<rparr>,
      \<lparr>ls_user_id = ''u1'', started_at = 8.75, ended_at = Some 9.25\<rparr>,
      \<lparr>ls_user_id = ''u1'', started_at = 9.75, ended_at = Some 10.25\<rparr>]"



definition user_words0 :: "UserWord list" where
  "user_words0 =
     [row0,
      row0\<lparr>uw_id := ''r2'', word_id := ''w2'', status := NEW, times_seen := 0\<rparr>,
      row0\<lparr>uw_id := ''r3'', user_id := ''u2'', word_id := ''w3'', status := MASTERED\<rparr>,
      row0\<lparr>uw_id := ''r4'', word_id := ''w4'', status := KNOWN, times_seen := 7\<rparr>]"


definition story0 :: Story where
  "story0 = \<lparr>st_id = ''s1'', st_user_id = ''u1'',
              target_new_word_ids = [''w2'', ''w3'', ''w4''],
              rating = None, completed_at = None\<rparr>"






definition history0 :: "(datetime \<times> int) list" where
  "history0 = [(739924, 3), (739925, 0), (739926, 3), (739927, 5)]"

section \<open>Properties of the floats\<close>

lemma pow2_pos: "0 < pow2 e"
  by (simp add: pow2_def)

lemma pow2_Suc: "pow2 (e + 1) = 2 * pow2 e"
proof -
  consider "0 \<le> e" | "e = - 1" | "e < - 1" by linarith
  then show ?thesis
  proof cases
    case 1
    then have "nat (e + 1) = Suc (nat e)" by simp
    with 1 show ?thesis by (simp add: pow2_def)
  next
    case 2
    then show ?thesis by (simp add: pow2_def)
  next
    case 3
    then have "nat (- e) = Suc (nat (- e - 1))" by simp
    moreover have "nat (- (e + 1)) = nat (- e - 1)" by simp
    ultimately show ?thesis using 3 by (simp add: pow2_def)
  qed
qed

lemma pow2_mono_nat: "pow2 e \<le> pow2 (e + int k)"
proof (induction k)
  case 0
  then show ?case by simp
next
  case (Suc k)
  have "pow2 (e + int (Suc k)) = 2 * pow2 (e + int k)"
    using pow2_Suc [of "e + int k"] by (simp add: add.commute add.left_commute)
  moreover have "0 < pow2 (e + int k)" by (rule pow2_pos)
  ultimately show ?case using Suc by linarith
qed

lemma pow2_mono: "a \<le> b \<Longrightarrow> pow2 a \<le> pow2 b"
  using pow2_mono_nat [of a "nat (b - a)"] by simp

lemma pow2_less_imp: "pow2 a < pow2 b \<Longrightarrow> a < b"
  using pow2_mono [of b a] by (cases "a < b") simp_all

lemma ilog2_bounds: "0 < x \<Longrightarrow> pow2 (ilog2 x) \<le> x \<and> x < pow2 (ilog2 x + 1)"
proof (induction x rule: ilog2.induct)
  case (1 x)
  consider "2 \<le> x" | "x < 1" | "1 \<le> x" "x < 2" by linarith
  then show ?case
  proof cases
    case 1
    then have eq: "ilog2 x = ilog2 (x / 2) + 1" using "1.prems" by (subst ilog2.simps) simp
    have "pow2 (ilog2 (x / 2)) \<le> x / 2 \<and> x / 2 < pow2 (ilog2 (x / 2) + 1)"
      using "1.IH"(1) 1 "1.prems" by simp
    then show ?thesis
      unfolding eq using pow2_Suc [of "ilog2 (x / 2)"] pow2_Suc [of "ilog2 (x / 2) + 1"]
      by simp
  next
    case 2
    then have eq: "ilog2 x = ilog2 (2 * x) - 1" using "1.prems" by (subst ilog2.simps) simp
    have "pow2 (ilog2 (2 * x)) \<le> 2 * x \<and> 2 * x < pow2 (ilog2 (2 * x) + 1)"
      using "1.IH"(2) 2 "1.prems" by simp
    then show ?thesis
      unfolding eq using pow2_Suc [of "ilog2 (2 * x) - 1"] pow2_Suc [of "ilog2 (2 * x)"]
      by simp
  next
    case 3
    then have eq: "ilog2 x = 0" by (subst ilog2.simps) simp
    show ?thesis unfolding eq using 3 by (simp add: pow2_def)
  qed
qed

lemma round_half_even_error: "\<bar>of_int (round_half_even y) - y\<bar> \<le> 1 / 2"
  unfolding round_half_even_def Let_def
  by (auto simp: abs_if) linarith+

lemma round_half_even_of_int: "round_half_even (of_int n) = n"
  by (simp add: round_half_even_def)

lemma round_half_even_nonneg: "0 \<le> y \<Longrightarrow> 0 \<le> round_half_even y"
  unfolding round_half_even_def Let_def by auto


lemma pow2_numeral: "(2::rat) ^ n = pow2 (int n)"
  by (simp add: pow2_def)

lemma ilog2_less: "0 < x \<Longrightarrow> x < 2 ^ n \<Longrightarrow> ilog2 x < int n"
proof -
  assume x: "0 < x" and b: "x < 2 ^ n"
  from ilog2_bounds [OF x] b have "pow2 (ilog2 x) < pow2 (int n)"
    by (simp add: pow2_numeral)
  then show ?thesis by (rule pow2_less_imp)
qed

lemma ilog2_nonneg: "1 \<le> x \<Longrightarrow> 0 \<le> ilog2 x"
proof -
  assume x: "1 \<le> x"
  then have "0 < x" by simp
  from ilog2_bounds [OF this] x have "pow2 0 < pow2 (ilog2 x + 1)"
    by (simp add: pow2_def)
  then have "0 < ilog2 x + 1" by (rule pow2_less_imp)
  then show ?thesis by simp
qed

lemma fl_of_int:
  assumes "\<bar>n\<bar> < 2 ^ 53"
  shows "fl (of_int n) = Finite (of_int n)"
proof (cases "n = 0")
  case True
  then show ?thesis by (simp add: fl_def)
next
  case False
  let ?x = "of_int n :: rat"
  let ?k = "ilog2 \<bar>?x\<bar>"
  have x1: "1 \<le> \<bar>?x\<bar>" using False by (simp flip: of_int_abs)
  have "\<bar>?x\<bar> < 2 ^ 53" using assms by (simp flip: of_int_abs)
  with x1 have "?k < 53" using ilog2_less [of "\<bar>?x\<bar>" 53] by simp
  moreover have "0 \<le> ?k" using x1 by (rule ilog2_nonneg)
  ultimately have e: "max (?k - 52) (- 1074) = ?k - 52" and le: "?k - 52 \<le> 0" by simp_all
  define m where "m = nat (52 - ?k)"
  have p: "pow2 (?k - 52) = 1 / 2 ^ m"
    using le by (cases "?k = 52") (simp_all add: pow2_def m_def)
  have q: "?x / pow2 (?k - 52) = of_int (n * 2 ^ m)" unfolding p by simp
  have r: "of_int (round_half_even (?x / pow2 (?k - 52))) * pow2 (?k - 52) = ?x"
    unfolding q round_half_even_of_int unfolding p by simp
  have "\<bar>?x\<bar> < 2 ^ 1024"
  proof -
    have "\<bar>?x\<bar> < 2 ^ 53" by fact
    also have "(2::rat) ^ 53 \<le> 2 ^ 1024" by (rule power_increasing) simp_all
    finally show ?thesis .
  qed
  then show ?thesis
    using False unfolding fl_def Let_def e r by simp
qed

lemma fl_finite:
  assumes "\<bar>x\<bar> < 2 ^ 1023"
  shows "\<exists>r. fl x = Finite r"
proof (cases "x = 0")
  case True
  then show ?thesis by (simp add: fl_def)
next
  case False
  let ?k = "ilog2 \<bar>x\<bar>"
  let ?e = "max (?k - 52) (- 1074)"
  let ?r = "of_int (round_half_even (x / pow2 ?e)) * pow2 ?e"
  have "0 < \<bar>x\<bar>" using False by simp
  with assms have "?k < 1023" using ilog2_less [of "\<bar>x\<bar>" 1023] by simp
  then have "?e \<le> 1022" by simp
  then have "pow2 ?e \<le> pow2 1022" by (rule pow2_mono)
  then have pe: "pow2 ?e \<le> 2 ^ 1022" by (simp add: pow2_def)
  have pp: "0 < pow2 ?e" by (rule pow2_pos)
  have "\<bar>?r - x\<bar> = \<bar>of_int (round_half_even (x / pow2 ?e)) - x / pow2 ?e\<bar> * pow2 ?e"
  proof -
    have "?r - x = (of_int (round_half_even (x / pow2 ?e)) - x / pow2 ?e) * pow2 ?e"
      using pp by (simp add: field_simps)
    then show ?thesis using pp by (simp add: abs_mult)
  qed
  also have "\<dots> \<le> (1 / 2) * pow2 ?e"
    using round_half_even_error [of "x / pow2 ?e"] pp by (intro mult_right_mono) simp_all
  finally have "\<bar>?r - x\<bar> \<le> 2 ^ 1022" using pe by simp
  then have "\<bar>?r\<bar> \<le> \<bar>x\<bar> + 2 ^ 1022" by linarith
  with assms have "\<bar>?r\<bar> < 2 ^ 1023 + 2 ^ 1022" by linarith
  also have "(2::rat) ^ 1023 + 2 ^ 1022 \<le> 2 ^ 1024" by simp
  finally have "\<not> 2 ^ 1024 \<le> \<bar>?r\<bar>" by simp
  then show ?thesis using False unfolding fl_def Let_def by simp
qed

lemma fl_nonneg:
  assumes "0 \<le> x"
  shows "fl x = PosInf \<or> (\<exists>r. 0 \<le> r \<and> fl x = Finite r)"
proof (cases "x = 0")
  case True
  then show ?thesis by (simp add: fl_def)
next
  case False
  let ?e = "max (ilog2 \<bar>x\<bar> - 52) (- 1074)"
  have pp: "0 < pow2 ?e" by (rule pow2_pos)
  with assms have "0 \<le> x / pow2 ?e" by simp
  then have "0 \<le> round_half_even (x / pow2 ?e)" by (rule round_half_even_nonneg)
  then have "0 \<le> of_int (round_half_even (x / pow2 ?e)) * pow2 ?e" using pp by simp
  then show ?thesis using False assms unfolding fl_def Let_def by auto
qed

lemma flt_imp_fle: "flt a b \<Longrightarrow> fle a b"
  by (cases a; cases b) simp_all

lemma fle_fmax: "a \<noteq> NaN \<Longrightarrow> fle a (fmax a b)"
  by (cases a; cases b) (simp_all add: fmax_def)

lemma floor_numeral_div:
  "\<lfloor>(numeral a :: rat) / numeral b\<rfloor> = numeral a div numeral b"
  "\<lfloor>- (numeral a :: rat) / numeral b\<rfloor> = - numeral a div numeral b"
  "\<lfloor>- ((numeral a :: rat) / numeral b)\<rfloor> = - numeral a div numeral b"
  using floor_divide_of_int_eq [of "numeral a" "numeral b", where ?'a = rat]
        floor_divide_of_int_eq [of "- numeral a" "numeral b", where ?'a = rat]
  by simp_all

lemmas fl_eval = fl_def ilog2.simps pow2_def round_half_even_def Let_def float_of_int_def
  floor_numeral_div

lemma float_literals:
  "fl (13 / 10) = Finite (5854679515581645 / 4503599627370496)"
  "fl (1 / 10) = Finite (3602879701896397 / 36028797018963968)"
  "fl (8 / 100) = Finite (5764607523034235 / 72057594037927936)"
  "fl (2 / 100) = Finite (5764607523034235 / 288230376151711744)"
  "fl (2 / 25) = Finite (5764607523034235 / 72057594037927936)"
  "fl (1 / 50) = Finite (5764607523034235 / 288230376151711744)"
  "fl (9 / 10) = Finite (8106479329266893 / 9007199254740992)"
  "fl (7 / 10) = Finite (3152519739159347 / 4503599627370496)"
  "fl (27 / 20) = Finite (3039929748475085 / 2251799813685248)"
  "fl (12 / 5) = Finite (5404319552844595 / 2251799813685248)"
  "fl (37 / 10) = Finite (4165829655317709 / 1125899906842624)"
  by (simp_all add: fl_eval)

lemma quotient_values:
  "fl (3 / 4) = Finite (3 / 4)"
  "fl (1 / 2) = Finite (1 / 2)"
  "fl 1 = Finite 1"
  by (simp_all add: fl_eval)

section \<open>Properties of the review scheduler\<close>

lemma tracking_Inr:
  "update_review_tracking now (u, n) q = Inr r \<longleftrightarrow>
     in_range now n
     \<and> r = (u\<lparr>times_reviewed := times_reviewed u + 1, last_seen_at := Some now,
              next_review_at := Some (now + of_int n),
              times_correct := times_correct u + (if 3 \<le> q then 1 else 0)\<rparr>, n)"
  unfolding update_review_tracking_def timedelta_def datetime_add_def in_range_def
  by (auto simp: Let_def not_le not_less)

lemma tracking_Inl:
  "update_review_tracking now (u, n) q = Inl e \<longleftrightarrow> \<not> in_range now n \<and> e = OverflowError"
  unfolding update_review_tracking_def timedelta_def datetime_add_def in_range_def
  by (auto simp: Let_def not_le not_less)

lemma status_Inr:
  "update_status (u, n) = Inr r \<longleftrightarrow>
     (\<exists>ratio. int_truediv (times_correct u) (max 1 (times_reviewed u)) = Inr ratio
        \<and> r = (u\<lparr>familiarity := fmin (Finite 1) ratio,
                   status := status_of (fmin (Finite 1) ratio) n\<rparr>, n))"
  unfolding update_status_def status_of_def
  by (cases "int_truediv (times_correct u) (max 1 (times_reviewed u))") (auto simp: Let_def)

lemma status_Inl:
  "update_status (u, n) = Inl e \<longleftrightarrow>
     int_truediv (times_correct u) (max 1 (times_reviewed u)) = Inl e"
  unfolding update_status_def
  by (cases "int_truediv (times_correct u) (max 1 (times_reviewed u))") (auto simp: Let_def)

lemma submit_review_Inr:
  assumes "0 \<le> q" and "q \<le> 5"
  shows "submit_review now (Some p) q = Inr p' \<longleftrightarrow>
     (\<exists>u n ratio. sm2_update p q = Inr (u, n) \<and> in_range now n
        \<and> int_truediv (times_correct u + (if 3 \<le> q then 1 else 0))
             (max 1 (times_reviewed u + 1)) = Inr ratio
        \<and> p' = u\<lparr>times_reviewed := times_reviewed u + 1, last_seen_at := Some now,
                  next_review_at := Some (now + of_int n),
                  times_correct := times_correct u + (if 3 \<le> q then 1 else 0),
                  familiarity := fmin (Finite 1) ratio,
                  status := status_of (fmin (Finite 1) ratio) n,
                  srs_interval_days := float_of_int n\<rparr>)"
proof (cases "sm2_update p q")
  case (Inl e)
  then show ?thesis using assms by (simp add: submit_review_def)
next
  case (Inr un)
  obtain u n where un: "un = (u, n)" by (cases un)
  show ?thesis
  proof (cases "update_review_tracking now (u, n) q")
    case (Inl e)
    then have "\<not> in_range now n" by (simp add: tracking_Inl)
    with Inl Inr un show ?thesis using assms by (simp add: submit_review_def)
  next
    case r: (Inr r)
    then have ir: "in_range now n"
      and r': "r = (u\<lparr>times_reviewed := times_reviewed u + 1, last_seen_at := Some now,
              next_review_at := Some (now + of_int n),
              times_correct := times_correct u + (if 3 \<le> q then 1 else 0)\<rparr>, n)"
      by (simp_all add: tracking_Inr)
    show ?thesis
    proof (cases "update_status r")
      case (Inl e)
      then have "int_truediv (times_correct u + (if 3 \<le> q then 1 else 0))
             (max 1 (times_reviewed u + 1)) = Inl e"
        unfolding r' status_Inl by simp
      with Inl Inr un r show ?thesis using assms by (simp add: submit_review_def)
    next
      case s: (Inr s)
      then obtain ratio where
        d: "int_truediv (times_correct u + (if 3 \<le> q then 1 else 0))
             (max 1 (times_reviewed u + 1)) = Inr ratio"
        and s': "s = (u\<lparr>times_reviewed := times_reviewed u + 1, last_seen_at := Some now,
              next_review_at := Some (now + of_int n),
              times_correct := times_correct u + (if 3 \<le> q then 1 else 0),
              familiarity := fmin (Finite 1) ratio,
                   status := status_of (fmin (Finite 1) ratio) n\<rparr>, n)"
        unfolding r' status_Inr by auto
      have "submit_review now (Some p) q = Inr (commit s)"
        using Inr un r s assms by (simp add: submit_review_def)
      then show ?thesis using Inr un ir d unfolding s' commit_def by auto
    qed
  qed
qed

lemma float_of_int_exact: "\<bar>n\<bar> \<le> 999999999 \<Longrightarrow> float_of_int n = Finite (of_int n)"
  unfolding float_of_int_def by (rule fl_of_int) simp

lemma int_truediv_returns:
  assumes "1 \<le> b" and "\<bar>a\<bar> < 2 ^ 1023"
  shows "\<exists>r. fl (of_int a / of_int b) = Finite r \<and> int_truediv a b = Inr (Finite r)"
proof -
  have b: "(1::rat) \<le> of_int b" using assms(1) by simp
  have "\<bar>of_int a / of_int b :: rat\<bar> = \<bar>of_int a\<bar> / of_int b" using b by simp
  also have "\<dots> \<le> \<bar>of_int a\<bar> / 1" using b by (intro divide_left_mono) simp_all
  also have "\<dots> = \<bar>of_int a\<bar>" by simp
  also have "\<dots> < 2 ^ 1023" using assms(2) by (simp flip: of_int_abs)
  finally have "\<exists>r. fl (of_int a / of_int b) = Finite r" by (rule fl_finite)
  then show ?thesis using assms(1) by (auto simp: int_truediv_def)
qed

lemma int_truediv_Inr:
  "int_truediv a b = Inr ratio \<Longrightarrow> \<exists>r. fl (of_int a / of_int b) = Finite r \<and> ratio = Finite r"
  by (cases "fl (of_int a / of_int b)") (auto simp: int_truediv_def split: if_splits)

lemma sm2_update_frame:
  assumes "sm2_update p q = Inr (u, n)"
  shows "times_reviewed u = times_reviewed p" and "times_correct u = times_correct p"
    and "srs_interval_days u = srs_interval_days p"
  using assms
  by (auto simp: sm2_update_def Let_def split: if_splits sum.splits)

lemma sm2_update_Inl:
  "sm2_update p q = Inl e \<longleftrightarrow> new_interval (srs_interval_days p) (srs_ease_factor p) q = Inl e"
  by (auto simp: sm2_update_def new_interval_def new_ease_def Let_def split: sum.splits)

lemma sm2_update_Inr:
  "sm2_update p q = Inr (u, n) \<longleftrightarrow>
     new_interval (srs_interval_days p) (srs_ease_factor p) q = Inr n
     \<and> u = (if q < 3 then p
            else p\<lparr>srs_ease_factor := new_ease (srs_ease_factor p) q\<rparr>)"
  by (auto simp: sm2_update_def new_interval_def new_ease_def Let_def split: sum.splits)

lemma submit_review_raises:
  assumes "0 \<le> q" and "q \<le> 5"
  shows "new_interval (srs_interval_days p) (srs_ease_factor p) q = Inl e
         \<Longrightarrow> submit_review now (Some p) q = Inl e"
    and "new_interval (srs_interval_days p) (srs_ease_factor p) q = Inr n
         \<Longrightarrow> \<not> in_range now n \<Longrightarrow> submit_review now (Some p) q = Inl OverflowError"
proof -
  assume "new_interval (srs_interval_days p) (srs_ease_factor p) q = Inl e"
  then have "sm2_update p q = Inl e" by (simp add: sm2_update_Inl)
  then show "submit_review now (Some p) q = Inl e" using assms by (simp add: submit_review_def)
next
  assume n: "new_interval (srs_interval_days p) (srs_ease_factor p) q = Inr n"
    and r: "\<not> in_range now n"
  obtain u where u: "sm2_update p q = Inr (u, n)" using n by (simp add: sm2_update_Inr)
  from r have "update_review_tracking now (u, n) q = Inl OverflowError"
    by (simp add: tracking_Inl)
  with u show "submit_review now (Some p) q = Inl OverflowError"
    using assms by (simp add: submit_review_def)
qed

lemma submit_review_returns:
  assumes "0 \<le> q" and "q \<le> 5" and "int32 (times_correct p)"
    and "new_interval (srs_interval_days p) (srs_ease_factor p) q = Inr n"
    and "in_range now n"
  shows "\<exists>p'. submit_review now (Some p) q = Inr p'"
proof -
  obtain u where u: "sm2_update p q = Inr (u, n)" using assms(4) by (simp add: sm2_update_Inr)
  have "\<bar>times_correct p + (if 3 \<le> q then 1 else 0)\<bar> \<le> 2147483649"
    using assms(3) by (auto simp: int32_def)
  also have "(2147483649::int) < 2 ^ 1023" by simp
  finally have "\<exists>r. int_truediv (times_correct u + (if 3 \<le> q then 1 else 0))
                    (max 1 (times_reviewed u + 1)) = Inr r"
    using int_truediv_returns [of "max 1 (times_reviewed u + 1)"
                                  "times_correct p + (if 3 \<le> q then 1 else 0)"]
    by (auto simp: sm2_update_frame [OF u])
  with u assms(5) show ?thesis
    unfolding submit_review_Inr [OF assms(1,2)] by blast
qed

lemma submit_review_result:
  assumes "0 \<le> q" and "q \<le> 5" and "submit_review now (Some p) q = Inr p'"
  shows "\<exists>n r. new_interval (srs_interval_days p) (srs_ease_factor p) q = Inr n
       \<and> in_range now n
       \<and> srs_ease_factor p' = new_ease (srs_ease_factor p) q
       \<and> srs_interval_days p' = Finite (of_int n)
       \<and> last_seen_at p' = Some now
       \<and> next_review_at p' = Some (now + of_int n)
       \<and> times_reviewed p' = times_reviewed p + 1
       \<and> times_correct p' = times_correct p + (if 3 \<le> q then 1 else 0)
       \<and> fl (of_int (times_correct p') / of_int (max 1 (times_reviewed p'))) = Finite r
       \<and> familiarity p' = Finite (min 1 r)
       \<and> status p' = status_of (familiarity p') n"
proof -
  from assms(3) obtain u n ratio where u: "sm2_update p q = Inr (u, n)"
    and ir: "in_range now n"
    and d: "int_truediv (times_correct u + (if 3 \<le> q then 1 else 0))
             (max 1 (times_reviewed u + 1)) = Inr ratio"
    and p': "p' = u\<lparr>times_reviewed := times_reviewed u + 1, last_seen_at := Some now,
                  next_review_at := Some (now + of_int n),
                  times_correct := times_correct u + (if 3 \<le> q then 1 else 0),
                  familiarity := fmin (Finite 1) ratio,
                  status := status_of (fmin (Finite 1) ratio) n,
                  srs_interval_days := float_of_int n\<rparr>"
    unfolding submit_review_Inr [OF assms(1,2)] by blast
  from int_truediv_Inr [OF d] obtain r
    where r: "fl (of_int (times_correct u + (if 3 \<le> q then 1 else 0))
                  / of_int (max 1 (times_reviewed u + 1))) = Finite r"
      and ratio: "ratio = Finite r" by blast
  have f: "fmin (Finite 1) ratio = Finite (min 1 r)"
    unfolding ratio by (simp add: fmin_def min_def)
  have n: "float_of_int n = Finite (of_int n)"
    using ir by (intro float_of_int_exact) (simp add: in_range_def)
  from u have ni: "new_interval (srs_interval_days p) (srs_ease_factor p) q = Inr n"
    and ue: "srs_ease_factor u = new_ease (srs_ease_factor p) q"
    by (auto simp: sm2_update_Inr new_ease_def)
  show ?thesis
    using ni ir ue r unfolding p' f n
    by (simp add: sm2_update_frame [OF u])
qed

lemma new_ease_values:
  "new_ease (fl (27 / 20)) 5 = Finite (1632554864921805 / 1125899906842624)"
  "new_ease (fl (27 / 20)) 3 = fl (13 / 10)"
  "new_ease (fl (12 / 5)) 5 = Finite (5 / 2)"
  "new_ease (fl (37 / 10)) 5 = Finite (8556839292003943 / 2251799813685248)"
  "new_ease (fl (12 / 5)) 4 = Finite (5404319552844595 / 2251799813685248)"
  unfolding new_ease_def float_literals
  by (simp_all add: fl_eval fsub_def fmax_def)

lemma new_interval_values:
  "new_interval (Finite 10) (fl (27 / 20)) 5 = Inr 15"
  "new_interval (Finite 5) (fl (12 / 5)) 5 = Inr 12"
  "new_interval (Finite 2038878) (fl (37 / 10)) 5 = Inr 7747736"
  "new_interval (Finite 10) (fl (27 / 20)) 3 = Inr 13"
  "new_interval (Finite 10) (fl (27 / 20)) 2 = Inr 1"
  "new_interval NaN (fl (27 / 20)) 5 = Inl ValueError"
  "new_interval PosInf (fl (27 / 20)) 5 = Inl OverflowError"
  "new_interval (Finite 5) (fl (12 / 5)) 4 = Inr 12"
  "new_interval (Finite 20) (fl (27 / 20)) 5 = Inr 29"
  "new_interval (Finite 5) (fl (12 / 5)) 0 = Inr 1"
  unfolding new_interval_def new_ease_values
  by (simp_all add: fl_eval py_round_def float_literals)



text \<open>
  C2. For a row whose count of correct reviews is not negative: the review returns a row
  exactly when the quality is from 0 to 5, the first block returns an interval, and the
  next review date is in range. In the row it returns, the familiarity is the float
  quotient of the new \<open>times_correct\<close> by \<open>max(1, times_reviewed)\<close> (both after their
  increment) clamped into [0, 1]; the status is MASTERED when the familiarity is at least
  0.9 and the new interval at least 21, else KNOWN when the familiarity is at least 0.7,
  else LEARNING, and so never NEW.
\<close>

theorem submit_review_familiarity_status:
  assumes "0 \<le> times_correct p" and "int32 (times_correct p)"
  shows "((\<exists>p'. submit_review now (Some p) q = Inr p') \<longleftrightarrow>
            0 \<le> q \<and> q \<le> 5
          \<and> (\<exists>u n. sm2_update p q = Inr (u, n)
                \<and> \<bar>n\<bar> \<le> 999999999 \<and> 0 \<le> now + of_int n \<and> now + of_int n < 3652059))
       \<and> (\<forall>p'. submit_review now (Some p) q = Inr p' \<longrightarrow>
             times_reviewed p' = times_reviewed p + 1
           \<and> times_correct p' = times_correct p + (if 3 \<le> q then 1 else 0)
           \<and> (\<exists>r. fl (of_int (times_correct p') / of_int (max 1 (times_reviewed p')))
                     = Finite r
                  \<and> familiarity p' = Finite (max 0 (min 1 r)))
           \<and> status p' =
               (if fle (fl (9 / 10)) (familiarity p') \<and> fle (Finite 21) (srs_interval_days p')
                  then MASTERED
                else if fle (fl (7 / 10)) (familiarity p') then KNOWN else LEARNING)
           \<and> status p' \<noteq> NEW)"
proof (intro conjI allI impI)
  show "(\<exists>p'. submit_review now (Some p) q = Inr p') \<longleftrightarrow>
            0 \<le> q \<and> q \<le> 5
          \<and> (\<exists>u n. sm2_update p q = Inr (u, n)
                \<and> \<bar>n\<bar> \<le> 999999999 \<and> 0 \<le> now + of_int n \<and> now + of_int n < 3652059)"
  proof (cases "0 \<le> q \<and> q \<le> 5")
    case False
    then show ?thesis by (auto simp: submit_review_def)
  next
    case True
    then have q: "0 \<le> q" "q \<le> 5" by simp_all
    show ?thesis
    proof
      assume "\<exists>p'. submit_review now (Some p) q = Inr p'"
      then obtain p' where "submit_review now (Some p) q = Inr p'" ..
      then show "0 \<le> q \<and> q \<le> 5
          \<and> (\<exists>u n. sm2_update p q = Inr (u, n)
                \<and> \<bar>n\<bar> \<le> 999999999 \<and> 0 \<le> now + of_int n \<and> now + of_int n < 3652059)"
        unfolding submit_review_Inr [OF q] in_range_def using q by blast
    next
      assume "0 \<le> q \<and> q \<le> 5
          \<and> (\<exists>u n. sm2_update p q = Inr (u, n)
                \<and> \<bar>n\<bar> \<le> 999999999 \<and> 0 \<le> now + of_int n \<and> now + of_int n < 3652059)"
      then obtain u n where u: "sm2_update p q = Inr (u, n)" and r: "in_range now n"
        unfolding in_range_def by blast
      from u have "new_interval (srs_interval_days p) (srs_ease_factor p) q = Inr n"
        by (simp add: sm2_update_Inr)
      from submit_review_returns [OF q assms(2) this r]
      show "\<exists>p'. submit_review now (Some p) q = Inr p'" .
    qed
  qed
next
  fix p' assume p': "submit_review now (Some p) q = Inr p'"
  then have q: "0 \<le> q" "q \<le> 5" by (auto simp: submit_review_def split: if_splits)
  from submit_review_result [OF q p'] obtain n r
    where n: "srs_interval_days p' = Finite (of_int n)"
      and tr: "times_reviewed p' = times_reviewed p + 1"
      and tc: "times_correct p' = times_correct p + (if 3 \<le> q then 1 else 0)"
      and r: "fl (of_int (times_correct p') / of_int (max 1 (times_reviewed p'))) = Finite r"
      and f: "familiarity p' = Finite (min 1 r)"
      and st: "status p' = status_of (familiarity p') n"
    by blast
  show "times_reviewed p' = times_reviewed p + 1" by (rule tr)
  show "times_correct p' = times_correct p + (if 3 \<le> q then 1 else 0)" by (rule tc)
  have "(0::rat) \<le> of_int (times_correct p') / of_int (max 1 (times_reviewed p'))"
    using assms(1) tc by simp
  from fl_nonneg [OF this] r have "0 \<le> r" by auto
  then have "familiarity p' = Finite (max 0 (min 1 r))" using f by simp
  with r show "\<exists>r. fl (of_int (times_correct p') / of_int (max 1 (times_reviewed p')))
                     = Finite r
                  \<and> familiarity p' = Finite (max 0 (min 1 r))"
    by blast
  show st': "status p' =
               (if fle (fl (9 / 10)) (familiarity p') \<and> fle (Finite 21) (srs_interval_days p')
                  then MASTERED
                else if fle (fl (7 / 10)) (familiarity p') then KNOWN else LEARNING)"
    unfolding st status_of_def n by simp
  show "status p' \<noteq> NEW" unfolding st status_of_def by simp
qed

theorem submit_review_familiarity_status_witness:
  "0 \<le> times_correct row0 \<and> int32 (times_correct row0)
   \<and> (\<exists>p'. submit_review 739924 (Some row0) 4 = Inr p'
          \<and> times_reviewed p' = 4 \<and> times_correct p' = 3
          \<and> familiarity p' = Finite (3 / 4) \<and> status p' = KNOWN)
   \<and> (\<exists>p'. submit_review 739924 (Some row0) 0 = Inr p'
          \<and> times_reviewed p' = 4 \<and> times_correct p' = 2
          \<and> familiarity p' = Finite (1 / 2) \<and> status p' = LEARNING)
   \<and> (\<exists>p'. submit_review 739924 (Some row_ripe) 5 = Inr p'
          \<and> times_reviewed p' = 10 \<and> times_correct p' = 10
          \<and> familiarity p' = Finite 1 \<and> status p' = MASTERED)
   \<and> (\<forall>p'. submit_review 739924 (Some row_late) 5 \<noteq> Inr p')
   \<and> (\<forall>p'. submit_review 739924 (Some row0) 6 \<noteq> Inr p')"
proof -
  have h: "0 \<le> times_correct row0" "int32 (times_correct row0)"
    "0 \<le> times_correct row_ripe" "int32 (times_correct row_ripe)"
    "0 \<le> times_correct row_late" "int32 (times_correct row_late)"
    by (simp_all add: row0_def row_ripe_def row_late_def int32_def)
  have inst: "\<exists>p'. submit_review now (Some p) q = Inr p'
       \<and> times_reviewed p' = times_reviewed p + 1
       \<and> times_correct p' = times_correct p + (if 3 \<le> q then 1 else 0)
       \<and> (\<exists>r. fl (of_int (times_correct p') / of_int (max 1 (times_reviewed p'))) = Finite r
              \<and> familiarity p' = Finite (max 0 (min 1 r)))
       \<and> status p' =
           (if fle (fl (9 / 10)) (familiarity p') \<and> fle (Finite 21) (srs_interval_days p')
              then MASTERED
            else if fle (fl (7 / 10)) (familiarity p') then KNOWN else LEARNING)
       \<and> srs_interval_days p' = Finite (of_int n)"
    if "0 \<le> times_correct p" and "int32 (times_correct p)" and "0 \<le> q" and "q \<le> 5"
      and "new_interval (srs_interval_days p) (srs_ease_factor p) q = Inr n"
      and "\<bar>n\<bar> \<le> 999999999" and "0 \<le> now + of_int n" and "now + of_int n < 3652059"
    for p q now n
  proof -
    from that(5) obtain u where u: "sm2_update p q = Inr (u, n)"
      by (simp add: sm2_update_Inr)
    with that(3,4,6,7,8) submit_review_familiarity_status [OF that(1,2), of now q]
    obtain p' where p': "submit_review now (Some p) q = Inr p'" by blast
    from submit_review_result [OF that(3,4) p'] that(5)
    have "srs_interval_days p' = Finite (of_int n)" by auto
    with p' submit_review_familiarity_status [OF that(1,2), of now q] show ?thesis by blast
  qed
  have a: "\<exists>p'. submit_review 739924 (Some row0) 4 = Inr p'
          \<and> times_reviewed p' = 4 \<and> times_correct p' = 3
          \<and> familiarity p' = Finite (3 / 4) \<and> status p' = KNOWN"
    using inst [of row0 4 12 739924] h(1,2)
    by (simp add: row0_def new_interval_values)
      (auto simp: quotient_values float_literals)
  have b: "\<exists>p'. submit_review 739924 (Some row0) 0 = Inr p'
          \<and> times_reviewed p' = 4 \<and> times_correct p' = 2
          \<and> familiarity p' = Finite (1 / 2) \<and> status p' = LEARNING"
    using inst [of row0 0 1 739924] h(1,2)
    by (simp add: row0_def new_interval_values)
      (auto simp: quotient_values float_literals)
  have c: "\<exists>p'. submit_review 739924 (Some row_ripe) 5 = Inr p'
          \<and> times_reviewed p' = 10 \<and> times_correct p' = 10
          \<and> familiarity p' = Finite 1 \<and> status p' = MASTERED"
    using inst [of row_ripe 5 29 739924] h(3,4)
    by (simp add: row_ripe_def row0_def new_interval_values)
      (auto simp: quotient_values float_literals)
  have d: "\<forall>p'. submit_review 739924 (Some row_late) 5 \<noteq> Inr p'"
  proof -
    have "\<not> (\<exists>u n. sm2_update row_late 5 = Inr (u, n)
                \<and> \<bar>n\<bar> \<le> 999999999 \<and> 0 \<le> 739924 + real_of_int n
                \<and> 739924 + real_of_int n < 3652059)"
      by (simp add: sm2_update_Inr row_late_def row0_def new_interval_values)
    with submit_review_familiarity_status [OF h(5,6), of 739924 5] show ?thesis by blast
  qed
  have e: "\<forall>p'. submit_review 739924 (Some row0) 6 \<noteq> Inr p'"
    using submit_review_familiarity_status [OF h(1,2), of 739924 6] by simp
  from h(1,2) a b c d e show ?thesis by simp
qed

lemma submit_review_ease_floor:
  assumes "fle (fl (13 / 10)) (srs_ease_factor p)"
    and "submit_review now (Some p) q = Inr p'"
  shows "fle (fl (13 / 10)) (srs_ease_factor p')"
proof -
  from assms(2) have q: "0 \<le> q" "q \<le> 5" by (auto simp: submit_review_def split: if_splits)
  from submit_review_result [OF q assms(2)]
  have e: "srs_ease_factor p' = new_ease (srs_ease_factor p) q" by blast
  have "fl (13 / 10) \<noteq> NaN" by code_simp
  then show ?thesis
    unfolding e new_ease_def using assms(1) by (simp add: fle_fmax)
qed

lemma submit_reviews_ease_floor:
  "fle (fl (13 / 10)) (srs_ease_factor p)
   \<Longrightarrow> fle (fl (13 / 10)) (srs_ease_factor (submit_reviews p h))"
proof (induction h arbitrary: p)
  case Nil
  then show ?case by simp
next
  case (Cons a h)
  obtain now q where a: "a = (now, q)" by (cases a)
  show ?case
  proof (cases "submit_review now (Some p) q")
    case (Inl e)
    then show ?thesis using Cons a by simp
  next
    case (Inr p1)
    with Cons.prems have "fle (fl (13 / 10)) (srs_ease_factor p1)"
      by (rule submit_review_ease_floor)
    then have "fle (fl (13 / 10)) (srs_ease_factor (submit_reviews p1 h))" by (rule Cons.IH)
    then show ?thesis using Inr a by simp
  qed
qed

text \<open>
  C3. From a row whose ease factor is at least 1.3, every review that returns gives a row
  whose ease factor is at least 1.3, and after each call of every history of reviews,
  whatever the qualities and whether the calls return or raise, the stored row has an
  ease factor of at least 1.3.
\<close>

theorem ease_factor_floor:
  assumes "fle (fl (13 / 10)) (srs_ease_factor p)"
  shows "(\<forall>now q p'. submit_review now (Some p) q = Inr p'
            \<longrightarrow> fle (fl (13 / 10)) (srs_ease_factor p'))
       \<and> (\<forall>n \<le> length h. fle (fl (13 / 10)) (srs_ease_factor (submit_reviews p (take n h))))"
  using submit_review_ease_floor [OF assms] submit_reviews_ease_floor [OF assms] by blast

theorem ease_factor_floor_witness:
  "fle (fl (13 / 10)) (srs_ease_factor row_slow)
   \<and> fle (fl (13 / 10)) (srs_ease_factor (submit_reviews row_slow (take 3 history0)))
   \<and> fle (fl (13 / 10)) (srs_ease_factor (submit_reviews row_slow (take 4 history0)))
   \<and> (\<exists>p'. submit_review 739924 (Some row_slow) 3 = Inr p'
          \<and> srs_ease_factor p' = fl (13 / 10))
   \<and> submit_reviews row_late [(739924, 5), (739925, 7)] = row_late"
proof -
  have h: "fle (fl (13 / 10)) (srs_ease_factor row_slow)"
    by (simp add: row_slow_def float_literals)
  have l: "3 \<le> length history0" "4 \<le> length history0" by (simp_all add: history0_def)
  from ease_factor_floor [OF h, of history0] l
  have a: "fle (fl (13 / 10)) (srs_ease_factor (submit_reviews row_slow (take 3 history0)))"
    and b: "fle (fl (13 / 10)) (srs_ease_factor (submit_reviews row_slow (take 4 history0)))"
    by blast+
  have c: "\<exists>p'. submit_review 739924 (Some row_slow) 3 = Inr p'
          \<and> srs_ease_factor p' = fl (13 / 10)"
  proof -
    have q: "(0::int) \<le> 3" "(3::int) \<le> 5" by simp_all
    have n: "new_interval (srs_interval_days row_slow) (srs_ease_factor row_slow) 3 = Inr 13"
      by (simp add: row_slow_def new_interval_values)
    have "int32 (times_correct row_slow)" by (simp add: row_slow_def row0_def int32_def)
    moreover have "in_range 739924 13" by (simp add: in_range_def)
    ultimately obtain p' where p': "submit_review 739924 (Some row_slow) 3 = Inr p'"
      using submit_review_returns [OF q _ n, of 739924] by blast
    from submit_review_result [OF q p']
    have "srs_ease_factor p' = new_ease (srs_ease_factor row_slow) 3" by blast
    then have "srs_ease_factor p' = fl (13 / 10)"
      by (simp add: row_slow_def new_ease_values)
    with p' show ?thesis by blast
  qed
  have d: "submit_reviews row_late [(739924, 5), (739925, 7)] = row_late"
  proof -
    have q: "(0::int) \<le> 5" "(5::int) \<le> 5" by simp_all
    have n: "new_interval (srs_interval_days row_late) (srs_ease_factor row_late) 5
               = Inr 7747736"
      by (simp add: row_late_def new_interval_values)
    have "submit_review 739924 (Some row_late) 5 = Inl OverflowError"
      by (rule submit_review_raises(2) [OF q n]) (simp add: in_range_def)
    moreover have "submit_review 739925 (Some row_late) 7 = Inl HTTP_422_UNPROCESSABLE_ENTITY"
      by (simp add: submit_review_def)
    ultimately show ?thesis by simp
  qed
  from h a b c d show ?thesis by simp
qed

section \<open>Properties of the level tables\<close>

text \<open>
  C4, as the claim words it: the story-readiness table would send 399 known words to A2
  and 400 to B1. The table sends them to B1 and B2.
\<close>

theorem story_level_table_counterexample:
  "\<not> (determine_user_level 49 = A1 \<and> determine_user_level 50 = A2
      \<and> determine_user_level 399 = A2 \<and> determine_user_level 400 = B1)"
  by (simp add: determine_user_level_def)

text \<open>
  C4, amended: the story-readiness table, in the story generator and in the readiness
  route alike, has the cutoffs 50, 150 and 400, so 49 is A1, 50 and 149 are A2, 150 and
  399 are B1 and 400 is B2; the dashboard table has the cutoffs 100, 300 and 600.
\<close>

theorem level_tables:
  "determine_user_level n =
     (if n < 50 then A1 else if n < 150 then A2 else if n < 400 then B1 else B2)
   \<and> ready_story_level n = determine_user_level n
   \<and> determine_user_level 49 = A1 \<and> determine_user_level 50 = A2
   \<and> determine_user_level 149 = A2 \<and> determine_user_level 150 = B1
   \<and> determine_user_level 399 = B1 \<and> determine_user_level 400 = B2
   \<and> determine_level n =
     (if n < 100 then A1 else if n < 300 then A2 else if n < 600 then B1 else B2)"
  by (simp add: determine_user_level_def ready_story_level_def determine_level_def)

theorem level_tables_witness:
  "ready_story_level 399 = B1 \<and> determine_level 99 = A1 \<and> determine_level 100 = A2
   \<and> determine_level 299 = A2 \<and> determine_level 300 = B1 \<and> determine_level 599 = B1
   \<and> determine_level 600 = B2"
  using level_tables [of 399] level_tables [of 99] level_tables [of 100] level_tables [of 299]
    level_tables [of 300] level_tables [of 599] level_tables [of 600]
  by simp

section \<open>Properties of the streak\<close>

lemma streak_loop_days: "streak_loop s c ss = streak_days s c (map date_of ss)"
  by (induction ss arbitrary: s c) (simp_all add: Let_def)

lemma streak_days_dup:
  assumes "0 \<le> s"
  shows "streak_days s c (x # x # xs) = streak_days s c (x # xs)"
proof -
  consider "x = c" | "x \<noteq> c" "x = c - 1" | "x \<noteq> c" "x \<noteq> c - 1" by blast
  then show ?thesis
  proof cases
    case 1
    then show ?thesis by simp
  next
    case 2
    moreover have "max (s + 1) 1 = s + 1" using assms by simp
    ultimately show ?thesis by simp
  next
    case 3
    then show ?thesis by simp
  qed
qed

lemma streak_days_remdups_adj:
  "0 \<le> s \<Longrightarrow> streak_days s c ds = streak_days s c (remdups_adj ds)"
proof (induction ds arbitrary: s c rule: remdups_adj.induct)
  case 1
  then show ?case by simp
next
  case (2 x)
  then show ?case by simp
next
  case (3 x y xs)
  show ?case
  proof (cases "x = y")
    case True
    have "streak_days s c (x # y # xs) = streak_days s c (x # xs)"
      unfolding True [symmetric] using "3.prems" by (rule streak_days_dup)
    also have "\<dots> = streak_days s c (remdups_adj (x # xs))"
      using "3.IH"(1) [OF True "3.prems"] .
    also have "remdups_adj (x # xs) = remdups_adj (x # y # xs)"
      using True by simp
    finally show ?thesis .
  next
    case False
    have r: "remdups_adj (x # y # xs) = x # remdups_adj (y # xs)"
      using False by simp
    have step: "\<And>zs. streak_days s c (x # zs) =
        (if x = c then streak_days (max s 1) c zs
         else if x = c - 1 then streak_days (s + 1) x zs else s)"
      by simp
    have a: "streak_days (max s 1) c (y # xs) = streak_days (max s 1) c (remdups_adj (y # xs))"
      using "3.prems" by (intro "3.IH"(2) [OF False]) simp
    have b: "streak_days (s + 1) x (y # xs) = streak_days (s + 1) x (remdups_adj (y # xs))"
      using "3.prems" by (intro "3.IH"(2) [OF False]) simp
    show ?thesis unfolding r step a b ..
  qed
qed

lemma distinct_remdups_adj_sorted: "sorted xs \<Longrightarrow> distinct (remdups_adj xs)"
  by (induction xs rule: remdups_adj.induct) auto

lemma query_dates:
  "remdups_adj (map date_of (streak_query tbl uid)) = rev (sorted_list_of_set (start_dates tbl uid))"
proof -
  let ?xs = "map started_at (filter (\<lambda>s. ls_user_id s = uid \<and> ended_at s \<noteq> None) tbl)"
  let ?L = "map date_of (sort ?xs)"
  have "sorted ?L"
    unfolding sorted_map
    by (rule sorted_wrt_mono_rel [of _ "(\<le>)"]) (auto simp: date_of_def floor_mono)
  then have "sorted (remdups_adj ?L)" "distinct (remdups_adj ?L)"
    by (simp_all add: distinct_remdups_adj_sorted)
  moreover have "set (remdups_adj ?L) = start_dates tbl uid"
    by (simp add: start_dates_def image_image)
  ultimately have "remdups_adj ?L = sorted_list_of_set (start_dates tbl uid)"
    using sorted_list_of_set.idem_if_sorted_distinct [of "remdups_adj ?L"] by simp
  then show ?thesis
    by (simp add: streak_query_def rev_map [symmetric])
qed

lemma calculate_streak_dates:
  "calculate_streak tbl uid now = streak_days 0 (date_of now) (rev (sorted_list_of_set (start_dates tbl uid)))"
proof -
  have "calculate_streak tbl uid now = streak_loop 0 (date_of now) (streak_query tbl uid)"
    by (simp add: calculate_streak_def Let_def)
  also have "\<dots> = streak_days 0 (date_of now) (remdups_adj (map date_of (streak_query tbl uid)))"
    unfolding streak_loop_days by (rule streak_days_remdups_adj) simp
  finally show ?thesis unfolding query_dates .
qed

lemma slos3: "sorted_list_of_set {d, d - 1, d - 2 :: int} = [d - 2, d - 1, d]"
proof -
  have "sorted_list_of_set (set [d - 2, d - 1, d]) = [d - 2, d - 1, d]"
    by (rule sorted_list_of_set.idem_if_sorted_distinct) auto
  moreover have "set [d - 2, d - 1, d] = {d, d - 1, d - 2}" by auto
  ultimately show ?thesis by simp
qed

lemma slos2: "sorted_list_of_set {d, d - 2 :: int} = [d - 2, d]"
proof -
  have "sorted_list_of_set (set [d - 2, d]) = [d - 2, d]"
    by (rule sorted_list_of_set.idem_if_sorted_distinct) auto
  moreover have "set [d - 2, d] = {d, d - 2}" by auto
  ultimately show ?thesis by simp
qed

text \<open>
  C5, as stated, fails: the query selects \<open>started_at\<close> and the loop reads the day off
  it. A session that starts yesterday and ends today, with one more two days ago, ends
  on today and two days ago and gives streak 2, not 1; and three sessions that end today,
  yesterday and two days ago, the last two started a day before they ended, give streak 2,
  not 3.
\<close>

theorem calculate_streak_end_day_counterexample:
  "end_dates sessions_midnight ''u1'' = {date_of 10.75, date_of 10.75 - 2}
   \<and> calculate_streak sessions_midnight ''u1'' 10.75 = 2
   \<and> end_dates sessions_late ''u1'' = {date_of 10.75, date_of 10.75 - 1, date_of 10.75 - 2}
   \<and> calculate_streak sessions_late ''u1'' 10.75 = 2"
  by (simp add: end_dates_def List.map_filter_def sessions_midnight_def sessions_late_def
      calculate_streak_def streak_query_def date_of_def insert_commute Let_def
      del: not_None_eq)

text \<open>
  C5, amended. The streak is a function of the set of calendar days on which the user's
  sessions that have an end time started: it is 3 when these days are today, yesterday
  and the day before, 1 when they are today and two days ago, 0 when there is none; and
  two session tables with the same set of days give the same streak, so that a further
  session started on a day that already has one adds nothing.
\<close>

theorem calculate_streak_cases:
  "(start_dates tbl uid = {date_of now, date_of now - 1, date_of now - 2}
      \<longrightarrow> calculate_streak tbl uid now = 3)
   \<and> (start_dates tbl uid = {date_of now, date_of now - 2}
      \<longrightarrow> calculate_streak tbl uid now = 1)
   \<and> (start_dates tbl uid = {} \<longrightarrow> calculate_streak tbl uid now = 0)
   \<and> (start_dates tbl' uid = start_dates tbl uid
      \<longrightarrow> calculate_streak tbl' uid now = calculate_streak tbl uid now)"
  by (simp add: calculate_streak_dates slos3 slos2)

theorem calculate_streak_cases_witness:
  "start_dates sessions3 ''u1'' = {date_of 10.75, date_of 10.75 - 1, date_of 10.75 - 2}
   \<and> calculate_streak sessions3 ''u1'' 10.75 = 3
   \<and> start_dates sessions_gap ''u1'' = {date_of 10.75, date_of 10.75 - 2}
   \<and> calculate_streak sessions_gap ''u1'' 10.75 = 1
   \<and> start_dates [] ''u1'' = {}
   \<and> calculate_streak [] ''u1'' 10.75 = 0
   \<and> start_dates sessions3 ''u1'' = start_dates sessions3_once ''u1''
   \<and> calculate_streak sessions3 ''u1'' 10.75 = calculate_streak sessions3_once ''u1'' 10.75"
proof -
  have a: "start_dates sessions3 ''u1'' = {date_of 10.75, date_of 10.75 - 1, date_of 10.75 - 2}"
    by (simp add: start_dates_def sessions3_def date_of_def insert_commute del: not_None_eq)
  have b: "start_dates sessions_gap ''u1'' = {date_of 10.75, date_of 10.75 - 2}"
    by (simp add: start_dates_def sessions_gap_def date_of_def insert_commute del: not_None_eq)
  have c: "start_dates [] ''u1'' = {}"
    by (simp add: start_dates_def)
  have d: "start_dates sessions3 ''u1'' = start_dates sessions3_once ''u1''"
    by (simp add: start_dates_def sessions3_def sessions3_once_def date_of_def insert_commute del: not_None_eq)
  from a b c d
    calculate_streak_cases [of sessions3 "''u1''" "10.75" sessions3]
    calculate_streak_cases [of sessions_gap "''u1''" "10.75" sessions_gap]
    calculate_streak_cases [of "[]" "''u1''" "10.75" "[]"]
    calculate_streak_cases [of sessions3_once "''u1''" "10.75" sessions3]
  show ?thesis by simp
qed


section \<open>Properties of the answer comparison\<close>

lemma edit_distance_Nil2: "edit_distance xs [] = length xs"
  by (cases xs) simp_all

lemmas min_plus_ac =
  min_add_distrib_left min_add_distrib_right min.assoc min.commute min.left_commute
  min.idem min.left_idem add.assoc add.commute add.left_commute

lemma edit_distance_snoc:
  "edit_distance (xs @ [a]) (ys @ [b]) =
     min (edit_distance xs (ys @ [b]) + 1)
       (min (edit_distance (xs @ [a]) ys + 1)
            (edit_distance xs ys + (if a = b then 0 else 1)))"
proof (induction xs arbitrary: ys)
  case Nil
  show ?case
  proof (induction ys)
    case Nil
    show ?case by simp
  next
    case (Cons y ys)
    define n where "n = length ys"
    define dab :: nat where "dab = (if a = b then 0 else 1)"
    define day :: nat where "day = (if a = y then 0 else 1)"
    define L where "L = edit_distance [a] ys"
    have len: "length ys = n" "length (ys @ [b]) = n + 1" "length (y # ys @ [b]) = n + 1 + 1"
      "length (y # ys) = n + 1"
      by (simp_all add: n_def)
    have ih: "edit_distance [a] (ys @ [b]) = min (n + 1 + 1) (min (L + 1) (n + dab))"
      using Cons.IH unfolding dab_def L_def
      by (simp only: append_Nil edit_distance.simps(1) len)
    have l: "edit_distance [a] (y # ys @ [b]) =
               min (n + 1 + 1 + 1) (min (edit_distance [a] (ys @ [b]) + 1) (n + 1 + day))"
      unfolding day_def by (simp only: edit_distance.simps len)
    have r: "edit_distance [a] (y # ys) = min (n + 1 + 1) (min (L + 1) (n + day))"
      unfolding day_def L_def by (simp only: edit_distance.simps len)
    have "edit_distance [a] (y # ys @ [b]) =
            min (n + 1 + 1 + 1) (min (edit_distance [a] (y # ys) + 1) (n + 1 + dab))"
      unfolding l r ih by (simp only: min_plus_ac)
    then show ?case
      unfolding dab_def by (simp only: append_Nil append_Cons edit_distance.simps(1) len)
  qed
next
  case (Cons x xs)
  note outer = Cons.IH
  show ?case
  proof (induction ys)
    case Nil
    define m where "m = length xs"
    define dab :: nat where "dab = (if a = b then 0 else 1)"
    define dxb :: nat where "dxb = (if x = b then 0 else 1)"
    define K where "K = edit_distance xs [b]"
    have len: "length xs = m" "length (xs @ [a]) = m + 1" "length (x # xs @ [a]) = m + 1 + 1"
      "length (x # xs) = m + 1"
      by (simp_all add: m_def)
    have ih: "edit_distance (xs @ [a]) [b] = min (K + 1) (min (m + 1 + 1) (m + dab))"
      using outer [of "[]"] unfolding dab_def K_def
      by (simp only: append_Nil edit_distance_Nil2 len)
    have l: "edit_distance (x # xs @ [a]) [b] =
               min (edit_distance (xs @ [a]) [b] + 1) (min (m + 1 + 1 + 1) (m + 1 + dxb))"
      unfolding dxb_def by (simp only: edit_distance.simps(3) edit_distance_Nil2 len)
    have r: "edit_distance (x # xs) [b] = min (K + 1) (min (m + 1 + 1) (m + dxb))"
      unfolding dxb_def K_def by (simp only: edit_distance.simps(3) edit_distance_Nil2 len)
    have "edit_distance (x # xs @ [a]) [b] =
            min (edit_distance (x # xs) [b] + 1) (min (m + 1 + 1 + 1) (m + 1 + dab))"
      unfolding l r ih by (simp only: min_plus_ac)
    then show ?case
      unfolding dab_def by (simp only: append_Nil append_Cons edit_distance_Nil2 len)
  next
    case (Cons y ys)
    define d :: nat where "d = (if a = b then 0 else 1)"
    define e :: nat where "e = (if x = y then 0 else 1)"
    have ih1: "edit_distance (xs @ [a]) (y # ys @ [b]) =
                 min (edit_distance xs (y # ys @ [b]) + 1)
                   (min (edit_distance (xs @ [a]) (y # ys) + 1) (edit_distance xs (y # ys) + d))"
      using outer [of "y # ys"] unfolding d_def append_Cons .
    have ih2: "edit_distance (x # xs @ [a]) (ys @ [b]) =
                 min (edit_distance (x # xs) (ys @ [b]) + 1)
                   (min (edit_distance (x # xs @ [a]) ys + 1) (edit_distance (x # xs) ys + d))"
      using Cons.IH unfolding d_def append_Cons .
    have ih3: "edit_distance (xs @ [a]) (ys @ [b]) =
                 min (edit_distance xs (ys @ [b]) + 1)
                   (min (edit_distance (xs @ [a]) ys + 1) (edit_distance xs ys + d))"
      using outer [of ys] unfolding d_def .
    have l: "edit_distance (x # xs @ [a]) (y # ys @ [b]) =
               min (edit_distance (xs @ [a]) (y # ys @ [b]) + 1)
                 (min (edit_distance (x # xs @ [a]) (ys @ [b]) + 1)
                      (edit_distance (xs @ [a]) (ys @ [b]) + e))"
      unfolding e_def by (rule edit_distance.simps(3))
    have r1: "edit_distance (x # xs) (y # ys @ [b]) =
                min (edit_distance xs (y # ys @ [b]) + 1)
                  (min (edit_distance (x # xs) (ys @ [b]) + 1) (edit_distance xs (ys @ [b]) + e))"
      unfolding e_def by (rule edit_distance.simps(3))
    have r2: "edit_distance (x # xs @ [a]) (y # ys) =
                min (edit_distance (xs @ [a]) (y # ys) + 1)
                  (min (edit_distance (x # xs @ [a]) ys + 1) (edit_distance (xs @ [a]) ys + e))"
      unfolding e_def by (rule edit_distance.simps(3))
    have r3: "edit_distance (x # xs) (y # ys) =
                min (edit_distance xs (y # ys) + 1)
                  (min (edit_distance (x # xs) ys + 1) (edit_distance xs ys + e))"
      unfolding e_def by (rule edit_distance.simps(3))
    have "edit_distance (x # xs @ [a]) (y # ys @ [b]) =
            min (edit_distance (x # xs) (y # ys @ [b]) + 1)
              (min (edit_distance (x # xs @ [a]) (y # ys) + 1) (edit_distance (x # xs) (y # ys) + d))"
      unfolding l r1 r2 r3 ih1 ih2 ih3 by (simp only: min_plus_ac)
    then show ?case unfolding d_def append_Cons .
  qed
qed

lemma edit_distance_sym: "edit_distance xs ys = edit_distance ys xs"
proof (induction xs ys rule: edit_distance.induct)
  case (1 ys)
  show ?case by (simp add: edit_distance_Nil2)
next
  case (2 v va)
  show ?case by simp
next
  case (3 x xs y ys)
  have "(if x = y then 0 else 1 :: nat) = (if y = x then 0 else 1)" by auto
  with 3 show ?case
    by (simp only: edit_distance.simps min.assoc min.commute min.left_commute)
qed


lemma index_map_upt:
  "k < n \<Longrightarrow> index (map f [0..<n]) k = Some (f k)"
  by (simp add: index_def)

lemma inner_loop_row:
  assumes "previous_row =
             map (\<lambda>k. edit_distance p (take k (done @ rest))) [0..<length (done @ rest) + 1]"
    and "current_row = map (\<lambda>k. edit_distance (p @ [c1]) (take k done)) [0..<length done + 1]"
  shows "inner_loop c1 previous_row rest (length done) current_row =
           Some (map (\<lambda>k. edit_distance (p @ [c1]) (take k (done @ rest)))
                   [0..<length (done @ rest) + 1])"
  using assms
proof (induction rest arbitrary: "done" current_row)
  case Nil
  then show ?case by simp
next
  case (Cons c2 rest)
  let ?j = "length done"
  let ?s2 = "done @ c2 # rest"
  have a: "index previous_row (?j + 1) = Some (edit_distance p (done @ [c2]))"
    unfolding Cons.prems(1) by (subst index_map_upt) simp_all
  have b: "index current_row ?j = Some (edit_distance (p @ [c1]) done)"
    unfolding Cons.prems(2) by (subst index_map_upt) simp_all
  have c: "index previous_row ?j = Some (edit_distance p done)"
    unfolding Cons.prems(1) by (subst index_map_upt) simp_all
  have d: "(if c1 \<noteq> c2 then 1 else 0 :: nat) = (if c1 = c2 then 0 else 1)" by simp
  have new: "min (edit_distance p (done @ [c2]) + 1)
               (min (edit_distance (p @ [c1]) done + 1)
                    (edit_distance p done + (if c1 \<noteq> c2 then 1 else 0)))
             = edit_distance (p @ [c1]) (done @ [c2])"
    unfolding d by (rule edit_distance_snoc [symmetric])
  have cur': "current_row @ [edit_distance (p @ [c1]) (done @ [c2])] =
                map (\<lambda>k. edit_distance (p @ [c1]) (take k (done @ [c2])))
                  [0..<length (done @ [c2]) + 1]"
    unfolding Cons.prems(2) by simp
  have prev': "previous_row =
                 map (\<lambda>k. edit_distance p (take k ((done @ [c2]) @ rest)))
                   [0..<length ((done @ [c2]) @ rest) + 1]"
    unfolding Cons.prems(1) by simp
  have len: "length (done @ [c2]) = length done + 1" by simp
  have step: "inner_loop c1 previous_row (c2 # rest) ?j current_row =
          inner_loop c1 previous_row rest (length done + 1)
            (current_row @ [edit_distance (p @ [c1]) (done @ [c2])])"
    by (simp only: inner_loop.simps a b c new Let_def Option.bind.bind_lunit)
  show ?case
    unfolding step len [symmetric] Cons.IH [OF prev' cur'] by simp
qed

lemma outer_loop_row:
  assumes "previous_row = map (\<lambda>k. edit_distance p (take k s2)) [0..<length s2 + 1]"
  shows "outer_loop s2 rest (length p) previous_row =
           Some (map (\<lambda>k. edit_distance (p @ rest) (take k s2)) [0..<length s2 + 1])"
  using assms
proof (induction rest arbitrary: p previous_row)
  case Nil
  then show ?case by simp
next
  case (Cons c1 rest)
  have prev: "previous_row =
                map (\<lambda>k. edit_distance p (take k ([] @ s2))) [0..<length ([] @ s2) + 1]"
    using Cons.prems by simp
  have cur: "[length p + 1] =
               map (\<lambda>k. edit_distance (p @ [c1]) (take k [])) [0..<length ([] :: 'a list) + 1]"
    by (simp add: edit_distance_Nil2)
  have inner: "inner_loop c1 previous_row s2 0 [length p + 1] =
                 Some (map (\<lambda>k. edit_distance (p @ [c1]) (take k s2)) [0..<length s2 + 1])"
    using inner_loop_row [OF prev cur] by simp
  have ih: "outer_loop s2 rest (length p + 1)
          (map (\<lambda>k. edit_distance (p @ [c1]) (take k s2)) [0..<length s2 + 1]) =
        Some (map (\<lambda>k. edit_distance (p @ c1 # rest) (take k s2)) [0..<length s2 + 1])"
    using Cons.IH [of "map (\<lambda>k. edit_distance (p @ [c1]) (take k s2)) [0..<length s2 + 1]" "p @ [c1]"]
    by simp
  show ?case
    by (simp only: outer_loop.simps inner ih Option.bind.bind_lunit)
qed

lemma levenshtein_no_swap:
  assumes "length s2 \<le> length s1"
  shows "levenshtein_distance s1 s2 = Some (edit_distance s1 s2)"
proof (cases "length s2 = 0")
  case True
  then show ?thesis
    by (subst levenshtein_distance.simps) (simp add: edit_distance_Nil2)
next
  case False
  have "map (\<lambda>k. edit_distance [] (take k s2)) [0..<length s2 + 1] =
          map (\<lambda>k. k) [0..<length s2 + 1]"
    by (rule map_cong [OF refl]) (auto simp: min_def)
  then have init: "[0..<length s2 + 1] =
                map (\<lambda>k. edit_distance [] (take k s2)) [0..<length s2 + 1]"
    by simp
  have "outer_loop s2 s1 (length ([] :: 'a list)) [0..<length s2 + 1] =
          Some (map (\<lambda>k. edit_distance ([] @ s1) (take k s2)) [0..<length s2 + 1])"
    by (rule outer_loop_row) (rule init)
  then have o: "outer_loop s2 s1 0 [0..<length s2 + 1] =
          Some (map (\<lambda>k. edit_distance s1 (take k s2)) [0..<length s2 + 1])"
    by simp
  have "last_item (map (\<lambda>k. edit_distance s1 (take k s2)) [0..<length s2 + 1]) =
          Some (edit_distance s1 s2)"
    by (simp add: last_item_def)
  with o assms False show ?thesis
    by (subst levenshtein_distance.simps) simp
qed

lemma levenshtein_distance_correct:
  "levenshtein_distance s1 s2 = Some (edit_distance s1 s2)"
proof (cases "length s1 < length s2")
  case True
  then have "levenshtein_distance s1 s2 = levenshtein_distance s2 s1"
    by (subst levenshtein_distance.simps) simp
  also have "\<dots> = Some (edit_distance s2 s1)"
    using True by (intro levenshtein_no_swap) simp
  finally show ?thesis by (simp add: edit_distance_sym)
next
  case False
  then show ?thesis by (intro levenshtein_no_swap) simp
qed


lemma levenshtein_chhota_family:
  "levenshtein_distance (normalize_text ''bharatiy'') (normalize_text ''bhaarateey'') = Some 3"
  "levenshtein_distance (normalize_text ''namaskxyzm'') (normalize_text ''namaskaram'') = Some 3"
  "levenshtein_distance (normalize_text ''chata'') (normalize_text ''chota'') = Some 1"
  by code_simp+

text \<open>
  C6, as the claim words it: every answer at distance 3 from an expected answer of 10
  characters would be rejected. The answer \<open>bharatiy\<close> is at distance 3 from
  \<open>bhaarateey\<close>, and it is accepted, because both collapse to \<open>baratiy\<close>.
\<close>

theorem fuzzy_match_distance3_counterexample:
  "length (normalize_text ''bhaarateey'') = 10
   \<and> edit_distance (normalize_text ''bharatiy'') (normalize_text ''bhaarateey'') = 3
   \<and> fuzzy_match ''bharatiy'' ''bhaarateey'' = Some True"
proof -
  have "edit_distance (normalize_text ''bharatiy'') (normalize_text ''bhaarateey'') = 3"
    using levenshtein_chhota_family(1) by (simp add: levenshtein_distance_correct)
  moreover have "length (normalize_text ''bhaarateey'') = 10" by code_simp
  moreover have "fuzzy_match ''bharatiy'' ''bhaarateey'' = Some True" by code_simp
  ultimately show ?thesis by simp
qed

lemma fuzzy_match_eq:
  "fuzzy_match answer expected =
     Some (normalize_text answer = normalize_text expected
           \<or> simplify_romanization (normalize_text answer)
               = simplify_romanization (normalize_text expected)
           \<or> edit_distance (normalize_text answer) (normalize_text expected)
               \<le> (if length (normalize_text expected) \<le> 6 then 1 else 2))"
  by (simp add: fuzzy_match_def Let_def levenshtein_distance_correct)

text \<open>
  C6, amended: the fuzzy match returns, and it accepts exactly when the normalized
  strings are equal, or they are equal after the replacements of
  \<open>_simplify_romanization\<close>, or their Levenshtein distance is at most 1 for a normalized
  expected answer of at most 6 characters and at most 2 otherwise. So \<open>chhota\<close> matches
  \<open>chota\<close>; an answer at distance 3 from an expected answer of 10 characters is
  rejected unless the two collapse to the same string; an answer at distance 1 from an
  expected answer of 5 characters is accepted.
\<close>

theorem fuzzy_match_iff:
  "fuzzy_match answer expected =
     Some (normalize_text answer = normalize_text expected
           \<or> simplify_romanization (normalize_text answer)
               = simplify_romanization (normalize_text expected)
           \<or> edit_distance (normalize_text answer) (normalize_text expected)
               \<le> (if length (normalize_text expected) \<le> 6 then 1 else 2))
   \<and> fuzzy_match ''chhota'' ''chota'' = Some True
   \<and> (length (normalize_text expected) = 10
        \<and> edit_distance (normalize_text answer) (normalize_text expected) = 3
        \<and> simplify_romanization (normalize_text answer)
            \<noteq> simplify_romanization (normalize_text expected)
      \<longrightarrow> fuzzy_match answer expected = Some False)
   \<and> (length (normalize_text expected) = 5
        \<and> edit_distance (normalize_text answer) (normalize_text expected) = 1
      \<longrightarrow> fuzzy_match answer expected = Some True)"
proof -
  have eq: "fuzzy_match answer expected =
     Some (normalize_text answer = normalize_text expected
           \<or> simplify_romanization (normalize_text answer)
               = simplify_romanization (normalize_text expected)
           \<or> edit_distance (normalize_text answer) (normalize_text expected)
               \<le> (if length (normalize_text expected) \<le> 6 then 1 else 2))"
    by (rule fuzzy_match_eq)
  have ex: "fuzzy_match ''chhota'' ''chota'' = Some True" by code_simp
  have far: "fuzzy_match answer expected = Some False"
    if "length (normalize_text expected) = 10"
      and "edit_distance (normalize_text answer) (normalize_text expected) = 3"
      and "simplify_romanization (normalize_text answer)
            \<noteq> simplify_romanization (normalize_text expected)"
  proof -
    from that(3) have "normalize_text answer \<noteq> normalize_text expected" by auto
    with that show ?thesis unfolding eq by simp
  qed
  have near: "fuzzy_match answer expected = Some True"
    if "length (normalize_text expected) = 5"
      and "edit_distance (normalize_text answer) (normalize_text expected) = 1"
    using that unfolding eq by simp
  from eq ex far near show ?thesis by blast
qed

theorem fuzzy_match_iff_witness:
  "length (normalize_text ''namaskaram'') = 10
   \<and> edit_distance (normalize_text ''namaskxyzm'') (normalize_text ''namaskaram'') = 3
   \<and> simplify_romanization (normalize_text ''namaskxyzm'')
       \<noteq> simplify_romanization (normalize_text ''namaskaram'')
   \<and> fuzzy_match ''namaskxyzm'' ''namaskaram'' = Some False
   \<and> length (normalize_text ''chota'') = 5
   \<and> edit_distance (normalize_text ''chata'') (normalize_text ''chota'') = 1
   \<and> fuzzy_match ''chata'' ''chota'' = Some True"
proof -
  have a: "length (normalize_text ''namaskaram'') = 10" by code_simp
  have b: "edit_distance (normalize_text ''namaskxyzm'') (normalize_text ''namaskaram'') = 3"
    using levenshtein_chhota_family(2) by (simp add: levenshtein_distance_correct)
  have c: "simplify_romanization (normalize_text ''namaskxyzm'')
             \<noteq> simplify_romanization (normalize_text ''namaskaram'')"
    by code_simp
  have d: "length (normalize_text ''chota'') = 5" by code_simp
  have e: "edit_distance (normalize_text ''chata'') (normalize_text ''chota'') = 1"
    using levenshtein_chhota_family(3) by (simp add: levenshtein_distance_correct)
  from a b c d e fuzzy_match_iff [of "''namaskxyzm''" "''namaskaram''"]
    fuzzy_match_iff [of "''chata''" "''chota''"]
  show ?thesis by blast
qed

section \<open>Properties of the service answers\<close>



lemma prefix_contains: "prefix sep s \<Longrightarrow> contains sep s"
  by (cases s) auto

lemma contains_append: "contains sep (pre @ sep @ post)"
  by (induction pre) (auto simp: prefix_contains)




















section \<open>Properties of story completion\<close>

lemma row_kept_refl: "row_kept r r"
  by (simp add: row_kept_def)

lemma row_kept_trans: "row_kept a b \<Longrightarrow> row_kept b c \<Longrightarrow> row_kept a c"
  unfolding row_kept_def by (elim conjE) (intro conjI; (simp; fail)?; force)

lemma row_kept_mark_seen: "row_kept r (mark_seen now r)"
  by (simp add: row_kept_def mark_seen_def Let_def)

lemma row_kept_rank: "row_kept a b \<Longrightarrow> status_rank (status a) \<le> status_rank (status b)"
  by (auto simp: row_kept_def)

lemma mark_seen_keys:
  "user_id (mark_seen now r) = user_id r" "word_id (mark_seen now r) = word_id r"
  by (simp_all add: mark_seen_def Let_def)

lemma mark_seen_fields:
  "times_seen (mark_seen now r) = times_seen r + 1"
  "status (mark_seen now r) = (if status r = NEW then LEARNING else status r)"
  by (simp_all add: mark_seen_def Let_def)

lemma filter_key_unique:
  "distinct (map f xs) \<Longrightarrow> filter (\<lambda>x. f x = k) xs = [] \<or> (\<exists>r. filter (\<lambda>x. f x = k) xs = [r])"
proof (induction xs)
  case Nil
  then show ?case by simp
next
  case (Cons x xs)
  show ?case
  proof (cases "f x = k")
    case True
    from Cons.prems have "f x \<notin> f ` set xs" by simp
    with True have "\<forall>y \<in> set xs. f y \<noteq> k" by (metis imageI)
    then have "filter (\<lambda>x. f x = k) xs = []" by (simp add: filter_empty_conv)
    with True show ?thesis by simp
  next
    case False
    with Cons show ?thesis by simp
  qed
qed

lemma lookup_cases:
  assumes "uq_user_word tbl"
  shows "filter (\<lambda>uw. user_id uw = uid \<and> word_id uw = wid) tbl = []
       \<or> (\<exists>r. filter (\<lambda>uw. user_id uw = uid \<and> word_id uw = wid) tbl = [r])"
proof -
  have "(\<lambda>uw. user_id uw = uid \<and> word_id uw = wid)
          = (\<lambda>uw. (user_id uw, word_id uw) = (uid, wid))"
    by auto
  then show ?thesis
    using filter_key_unique [of "\<lambda>uw. (user_id uw, word_id uw)" tbl "(uid, wid)"] assms
    by (simp add: uq_user_word_def)
qed

lemma step_found_keys:
  "map (\<lambda>uw. (user_id uw, word_id uw)) (step_found now uid wid tbl)
     = map (\<lambda>uw. (user_id uw, word_id uw)) tbl"
  by (simp add: step_found_def mark_seen_keys cong: map_cong)

lemma mark_step:
  assumes "uq_user_word tbl"
  shows "mark_new_words_seen uuid4 now uid (wid # rest) tbl =
           mark_new_words_seen uuid4 now uid rest
             (if has_row tbl uid wid
              then step_found now uid wid tbl
              else tbl @ [new_user_word uuid4 now uid wid])"
proof -
  let ?rows = "filter (\<lambda>uw. user_id uw = uid \<and> word_id uw = wid) tbl"
  from lookup_cases [OF assms, of uid wid]
  consider "?rows = []" | r where "?rows = [r]" by blast
  then show ?thesis
  proof cases
    case 1
    then have ne: "\<not> (has_row tbl uid wid)"
      by (simp add: filter_empty_conv has_row_def)
    show ?thesis
      unfolding if_not_P [OF ne] using 1 by (simp add: scalar_one_or_none_def)
  next
    case 2
    then have "r \<in> set ?rows" by simp
    then have ex: "has_row tbl uid wid" by (auto simp: has_row_def)
    show ?thesis
      unfolding if_P [OF ex] using 2 by (simp add: scalar_one_or_none_def step_found_def)
  qed
qed

lemma uq_step:
  assumes "uq_user_word tbl"
  shows "uq_user_word (if has_row tbl uid wid
              then step_found now uid wid tbl
              else tbl @ [new_user_word uuid4 now uid wid])"
proof (cases "has_row tbl uid wid")
  case True
  show ?thesis
    unfolding if_P [OF True] using assms by (simp add: uq_user_word_def step_found_keys)
next
  case False
  then have "(uid, wid) \<notin> set (map (\<lambda>uw. (user_id uw, word_id uw)) tbl)"
    by (auto simp: has_row_def)
  then show ?thesis
    unfolding if_not_P [OF False] using assms
    by (simp add: uq_user_word_def new_user_word_def)
qed

lemma mark_new_words_seen_kept:
  assumes "uq_user_word tbl"
  shows "\<exists>tbl'. mark_new_words_seen uuid4 now uid targets tbl = Inr tbl'
           \<and> uq_user_word tbl' \<and> length tbl \<le> length tbl'
           \<and> (\<forall>i < length tbl. row_kept (tbl ! i) (tbl' ! i))"
  using assms
proof (induction targets arbitrary: tbl)
  case Nil
  then show ?case by (simp add: row_kept_refl)
next
  case (Cons wid rest)
  let ?tbl1 = "if has_row tbl uid wid
              then step_found now uid wid tbl
              else tbl @ [new_user_word uuid4 now uid wid]"
  have uq1: "uq_user_word ?tbl1" using Cons.prems by (rule uq_step)
  have len1: "length tbl \<le> length ?tbl1" by (simp add: step_found_def)
  have kept1: "row_kept (tbl ! i) (?tbl1 ! i)" if "i < length tbl" for i
    using that by (simp add: step_found_def nth_append row_kept_refl row_kept_mark_seen)
  from Cons.IH [OF uq1] obtain tbl' where
    r: "mark_new_words_seen uuid4 now uid rest ?tbl1 = Inr tbl'"
    and uq: "uq_user_word tbl'" and len: "length ?tbl1 \<le> length tbl'"
    and kept: "\<forall>i < length ?tbl1. row_kept (?tbl1 ! i) (tbl' ! i)"
    by blast
  have "mark_new_words_seen uuid4 now uid (wid # rest) tbl = Inr tbl'"
    unfolding mark_step [OF Cons.prems] by (rule r)
  moreover have "length tbl \<le> length tbl'" using len1 len by (rule order_trans)
  moreover have "\<forall>i < length tbl. row_kept (tbl ! i) (tbl' ! i)"
  proof (intro allI impI)
    fix i assume i: "i < length tbl"
    then have "i < length ?tbl1" using len1 by simp
    with kept have "row_kept (?tbl1 ! i) (tbl' ! i)" by blast
    with kept1 [OF i] show "row_kept (tbl ! i) (tbl' ! i)" by (rule row_kept_trans)
  qed
  ultimately show ?case using uq by blast
qed


lemma has_row_keys:
  "has_row tbl uid wid \<longleftrightarrow> (uid, wid) \<in> set (map (\<lambda>uw. (user_id uw, word_id uw)) tbl)"
  by (auto simp: has_row_def)

lemma has_row_step_found: "has_row (step_found now u w tbl) uid wid = has_row tbl uid wid"
  by (simp only: has_row_keys step_found_keys)

lemma has_row_append_new:
  "has_row (tbl @ [new_user_word uuid4 now u w]) uid wid
     \<longleftrightarrow> has_row tbl uid wid \<or> (u = uid \<and> w = wid)"
  by (auto simp: has_row_def new_user_word_def)

lemma mark_new_words_seen_distinct:
  assumes "uq_user_word tbl" and "distinct targets"
  shows "mark_new_words_seen uuid4 now uid targets tbl =
           Inr (map (\<lambda>uw. if user_id uw = uid \<and> word_id uw \<in> set targets
                          then mark_seen now uw else uw) tbl
                @ map (new_user_word uuid4 now uid)
                    (filter (\<lambda>wid. \<not> has_row tbl uid wid) targets))"
  using assms
proof (induction targets arbitrary: tbl)
  case Nil
  then show ?case by simp
next
  case (Cons wid rest)
  let ?g = "\<lambda>ws uw. if user_id uw = uid \<and> word_id uw \<in> set ws then mark_seen now uw else uw"
  from Cons.prems have nin: "wid \<notin> set rest" and dr: "distinct rest" by simp_all
  show ?case
  proof (cases "has_row tbl uid wid")
    case True
    let ?tbl1 = "step_found now uid wid tbl"
    have uq1: "uq_user_word ?tbl1"
      using uq_step [OF Cons.prems(1), of uid wid now uuid4] True by simp
    have m: "map (?g rest) ?tbl1 = map (?g (wid # rest)) tbl"
      unfolding step_found_def using nin by (auto simp: mark_seen_keys)
    have f: "filter (\<lambda>w. \<not> has_row ?tbl1 uid w) rest
               = filter (\<lambda>w. \<not> has_row tbl uid w) (wid # rest)"
      using True by (simp add: has_row_step_found)
    have "mark_new_words_seen uuid4 now uid (wid # rest) tbl =
            mark_new_words_seen uuid4 now uid rest ?tbl1"
      unfolding mark_step [OF Cons.prems(1)] using True by simp
    also have "\<dots> = Inr (map (?g rest) ?tbl1
                 @ map (new_user_word uuid4 now uid)
                     (filter (\<lambda>w. \<not> has_row ?tbl1 uid w) rest))"
      by (rule Cons.IH [OF uq1 dr])
    finally show ?thesis unfolding m f .
  next
    case False
    let ?new = "new_user_word uuid4 now uid wid"
    let ?tbl1 = "tbl @ [?new]"
    have uq1: "uq_user_word ?tbl1"
      using uq_step [OF Cons.prems(1), of uid wid now uuid4] False by simp
    have "\<forall>uw \<in> set tbl. \<not> (user_id uw = uid \<and> word_id uw = wid)"
      using False by (auto simp: has_row_def)
    then have m0: "map (?g rest) tbl = map (?g (wid # rest)) tbl"
      by (intro map_cong [OF refl]) auto
    have "?g rest ?new = ?new" using nin by (simp add: new_user_word_def)
    then have m: "map (?g rest) ?tbl1 = map (?g (wid # rest)) tbl @ [?new]"
      using m0 by simp
    have f0: "filter (\<lambda>w. \<not> has_row ?tbl1 uid w) rest
               = filter (\<lambda>w. \<not> has_row tbl uid w) rest"
      using nin by (intro filter_cong [OF refl]) (auto simp: has_row_append_new)
    have f: "filter (\<lambda>w. \<not> has_row tbl uid w) (wid # rest)
               = wid # filter (\<lambda>w. \<not> has_row tbl uid w) rest"
      using False by simp
    have "mark_new_words_seen uuid4 now uid (wid # rest) tbl =
            mark_new_words_seen uuid4 now uid rest ?tbl1"
      unfolding mark_step [OF Cons.prems(1)] using False by simp
    also have "\<dots> = Inr (map (?g rest) ?tbl1
                 @ map (new_user_word uuid4 now uid)
                     (filter (\<lambda>w. \<not> has_row ?tbl1 uid w) rest))"
      by (rule Cons.IH [OF uq1 dr])
    finally show ?thesis unfolding m f0 f by simp
  qed
qed


text \<open>
  C10. On a table that respects the unique constraint, completing a story returns, and
  every row that was there keeps its place, its keys and its review fields (interval,
  ease factor, next review time, review counters, familiarity), and its status except
  for the step from NEW to LEARNING, so that no status goes down. When the target words
  are distinct, the rows of the user for the target words are exactly the rows that
  \<open>mark_seen\<close> changes (one more \<open>times_seen\<close>, NEW turned into LEARNING), and each
  target word without a row gets one with the status LEARNING and \<open>times_seen\<close> 1.
\<close>

theorem complete_story_never_demotes:
  assumes "uq_user_word user_words"
  shows "\<exists>story' user_words'.
           complete_story uuid4 now (Some story) request_rating uid user_words
             = Inr (story', user_words')
         \<and> length user_words \<le> length user_words'
         \<and> (\<forall>i < length user_words.
               row_kept (user_words ! i) (user_words' ! i)
               \<and> status_rank (status (user_words ! i))
                   \<le> status_rank (status (user_words' ! i)))
         \<and> (distinct (target_new_word_ids story) \<longrightarrow>
               (\<forall>i < length user_words.
                  user_words' ! i =
                    (if user_id (user_words ! i) = uid
                        \<and> word_id (user_words ! i) \<in> set (target_new_word_ids story)
                     then mark_seen now (user_words ! i) else user_words ! i))
               \<and> (\<forall>wid \<in> set (target_new_word_ids story).
                     \<not> has_row user_words uid wid \<longrightarrow>
                       new_user_word uuid4 now uid wid \<in> set user_words')
               \<and> length user_words' =
                   length user_words
                   + length (filter (\<lambda>wid. \<not> has_row user_words uid wid)
                               (target_new_word_ids story)))
         \<and> (\<forall>r. times_seen (mark_seen now r) = times_seen r + 1
                \<and> status (mark_seen now r) = (if status r = NEW then LEARNING else status r))
         \<and> (\<forall>wid. status (new_user_word uuid4 now uid wid) = LEARNING
                  \<and> times_seen (new_user_word uuid4 now uid wid) = 1
                  \<and> user_id (new_user_word uuid4 now uid wid) = uid
                  \<and> word_id (new_user_word uuid4 now uid wid) = wid)"
proof -
  let ?targets = "target_new_word_ids story"
  define story2 where
    "story2 = (if request_rating \<noteq> None \<and> request_rating \<noteq> Some 0
               then story\<lparr>completed_at := Some now, rating := request_rating\<rparr>
               else story\<lparr>completed_at := Some now\<rparr>)"
  have t2: "target_new_word_ids story2 = ?targets" by (simp add: story2_def)
  from mark_new_words_seen_kept [OF assms, of uuid4 now uid ?targets]
  obtain tbl' where
    r: "mark_new_words_seen uuid4 now uid ?targets user_words = Inr tbl'"
    and len: "length user_words \<le> length tbl'"
    and kept: "\<forall>i < length user_words. row_kept (user_words ! i) (tbl' ! i)"
    by blast
  have c: "complete_story uuid4 now (Some story) request_rating uid user_words
             = Inr (story2, tbl')"
    using r by (simp add: complete_story_def Let_def story2_def)
  have k: "\<forall>i < length user_words.
               row_kept (user_words ! i) (tbl' ! i)
               \<and> status_rank (status (user_words ! i)) \<le> status_rank (status (tbl' ! i))"
    using kept row_kept_rank by blast
  have d: "distinct ?targets \<longrightarrow>
               (\<forall>i < length user_words.
                  tbl' ! i =
                    (if user_id (user_words ! i) = uid \<and> word_id (user_words ! i) \<in> set ?targets
                     then mark_seen now (user_words ! i) else user_words ! i))
               \<and> (\<forall>wid \<in> set ?targets.
                     \<not> has_row user_words uid wid \<longrightarrow>
                       new_user_word uuid4 now uid wid \<in> set tbl')
               \<and> length tbl' =
                   length user_words
                   + length (filter (\<lambda>wid. \<not> has_row user_words uid wid) ?targets)"
  proof
    assume "distinct ?targets"
    from mark_new_words_seen_distinct [OF assms this, of uuid4 now uid] r
    have eq: "tbl' = map (\<lambda>uw. if user_id uw = uid \<and> word_id uw \<in> set ?targets
                          then mark_seen now uw else uw) user_words
                @ map (new_user_word uuid4 now uid)
                    (filter (\<lambda>wid. \<not> has_row user_words uid wid) ?targets)"
      by simp
    show "(\<forall>i < length user_words.
                  tbl' ! i =
                    (if user_id (user_words ! i) = uid \<and> word_id (user_words ! i) \<in> set ?targets
                     then mark_seen now (user_words ! i) else user_words ! i))
               \<and> (\<forall>wid \<in> set ?targets.
                     \<not> has_row user_words uid wid \<longrightarrow>
                       new_user_word uuid4 now uid wid \<in> set tbl')
               \<and> length tbl' =
                   length user_words
                   + length (filter (\<lambda>wid. \<not> has_row user_words uid wid) ?targets)"
      unfolding eq by (simp add: nth_append)
  qed
  have m: "\<forall>r. times_seen (mark_seen now r) = times_seen r + 1
                \<and> status (mark_seen now r) = (if status r = NEW then LEARNING else status r)"
    by (simp add: mark_seen_fields)
  have n: "\<forall>wid. status (new_user_word uuid4 now uid wid) = LEARNING
                  \<and> times_seen (new_user_word uuid4 now uid wid) = 1
                  \<and> user_id (new_user_word uuid4 now uid wid) = uid
                  \<and> word_id (new_user_word uuid4 now uid wid) = wid"
    by (simp add: new_user_word_def)
  show ?thesis
    by (rule exI [of _ story2], rule exI [of _ tbl'], intro conjI, rule c, rule len, rule k,
        rule d, rule m, rule n)
qed

theorem complete_story_never_demotes_witness:
  "uq_user_word user_words0 \<and> distinct (target_new_word_ids story0)
   \<and> (\<exists>story' user_words'.
         complete_story (\<lambda>uid wid. ''id-'' @ wid) 20 (Some story0) (Some 5) ''u1'' user_words0
           = Inr (story', user_words')
       \<and> map status user_words' = [LEARNING, LEARNING, MASTERED, KNOWN, LEARNING]
       \<and> map times_seen user_words' = [1, 1, 1, 8, 1]
       \<and> map srs_interval_days user_words' = [Finite 5, Finite 5, Finite 5, Finite 5, Finite 1]
       \<and> map word_id user_words' = [''w1'', ''w2'', ''w3'', ''w4'', ''w3''])"
proof -
  have uq: "uq_user_word user_words0"
    by (simp add: uq_user_word_def user_words0_def row0_def)
  have ds: "distinct (target_new_word_ids story0)" by (simp add: story0_def)
  from complete_story_never_demotes [OF uq, of "\<lambda>uid wid. ''id-'' @ wid" 20 story0 "Some 5" "''u1''"]
  obtain story' user_words' where
    c: "complete_story (\<lambda>uid wid. ''id-'' @ wid) 20 (Some story0) (Some 5) ''u1'' user_words0
           = Inr (story', user_words')"
    by blast
  have "complete_story (\<lambda>uid wid. ''id-'' @ wid) 20 (Some story0) (Some 5) ''u1'' user_words0
          = Inr (story0\<lparr>completed_at := Some 20, rating := Some 5\<rparr>,
                 [row0,
                  row0\<lparr>uw_id := ''r2'', word_id := ''w2'', status := LEARNING, times_seen := 1,
                        last_seen_at := Some 20\<rparr>,
                  row0\<lparr>uw_id := ''r3'', user_id := ''u2'', word_id := ''w3'', status := MASTERED\<rparr>,
                  row0\<lparr>uw_id := ''r4'', word_id := ''w4'', status := KNOWN, times_seen := 8,
                        last_seen_at := Some 20\<rparr>,
                  new_user_word (\<lambda>uid wid. ''id-'' @ wid) 20 ''u1'' ''w3''])"
    by (simp add: complete_story_def story0_def user_words0_def row0_def scalar_one_or_none_def
          mark_seen_def new_user_word_def Let_def)
  with c have "user_words' =
                 [row0,
                  row0\<lparr>uw_id := ''r2'', word_id := ''w2'', status := LEARNING, times_seen := 1,
                        last_seen_at := Some 20\<rparr>,
                  row0\<lparr>uw_id := ''r3'', user_id := ''u2'', word_id := ''w3'', status := MASTERED\<rparr>,
                  row0\<lparr>uw_id := ''r4'', word_id := ''w4'', status := KNOWN, times_seen := 8,
                        last_seen_at := Some 20\<rparr>,
                  new_user_word (\<lambda>uid wid. ''id-'' @ wid) 20 ''u1'' ''w3'']"
    by simp
  then have vals: "map status user_words' = [LEARNING, LEARNING, MASTERED, KNOWN, LEARNING]
       \<and> map times_seen user_words' = [1, 1, 1, 8, 1]
       \<and> map srs_interval_days user_words' = [Finite 5, Finite 5, Finite 5, Finite 5, Finite 1]
       \<and> map word_id user_words' = [''w1'', ''w2'', ''w3'', ''w4'', ''w3'']"
    by (simp add: row0_def new_user_word_def)
  show ?thesis
    by (rule conjI [OF uq], rule conjI [OF ds], rule exI, rule exI, rule conjI [OF c vals])
qed


section \<open>Properties of the content selection\<close>

lemma owned_iff:
  "w \<in> set (map word_id (filter (\<lambda>uw. user_id uw = uid) user_words)) \<longleftrightarrow> has_row user_words uid w"
  by (auto simp: has_row_def)












end
